theory Spec2Isabelle
  imports Main
begin

section \<open>Python primitives\<close>

text \<open>
  The exceptions the pipeline of \<^verbatim>\<open>ct_scan.py\<close> can raise: the image library's
  bad-coordinate exception of \<^verbatim>\<open>get_pixel\<close>/\<^verbatim>\<open>set_pixel\<close>, and Python's
  \<^verbatim>\<open>ZeroDivisionError\<close> of the floor division in \<^verbatim>\<open>get_green_agv\<close>.
\<close>

datatype error = BadCoordinate | ZeroDivisionError

text \<open>\<^verbatim>\<open>range(n)\<close>: the integers \<open>0, ..., n - 1\<close>, empty when \<open>n \<le> 0\<close>.\<close>

definition py_range :: "int \<Rightarrow> int list" where
  "py_range n = map int [0..<nat n]"

text \<open>
  \<^verbatim>\<open>range(start, stop, step)\<close> for a positive step (the program only uses
  \<^verbatim>\<open>STEP_SIZE = 50\<close>): \<open>start, start + step, ...\<close> while below \<open>stop\<close>.
\<close>

function py_range3 :: "int \<Rightarrow> int \<Rightarrow> int \<Rightarrow> int list" where
  "py_range3 start stop step =
     (if 0 < step \<and> start < stop then start # py_range3 (start + step) stop step else [])"
  by pat_completeness auto
termination
  by (relation "measure (\<lambda>(start, stop, step). nat (stop - start))") auto

declare py_range3.simps [simp del]

text \<open>
  A \<^verbatim>\<open>for\<close> loop over a list whose body may raise: the loop stops at the first
  exception, which becomes the result.
\<close>

fun for_each :: "'i list \<Rightarrow> ('i \<Rightarrow> 's \<Rightarrow> error + 's) \<Rightarrow> 's \<Rightarrow> error + 's" where
  "for_each [] body s = Inr s"
| "for_each (i # is) body s =
     (case body i s of Inl e \<Rightarrow> Inl e | Inr s' \<Rightarrow> for_each is body s')"

section \<open>The image library\<close>

text \<open>
  Modelled from the spec: the \<^verbatim>\<open>SimpleImage\<close> class the program imports is not part
  of the repository. Section 6 of the specification gives its interface: an image has a
  \<^verbatim>\<open>width\<close>, a \<^verbatim>\<open>height\<close>, \<^verbatim>\<open>get_pixel(x, y)\<close>, \<^verbatim>\<open>set_pixel(x, y, pixel)\<close>, an
  iteration over all pixels and a \<^verbatim>\<open>blank(width, height)\<close> constructor; a pixel has
  the channels red, green, blue and its position. Both accessors raise on a coordinate
  outside the image. A pixel obtained from an image refers to that image: reading
  \<^verbatim>\<open>pixel.x\<close> gives the coordinate it was fetched at, and assigning to a channel changes
  the image. In the model \<^verbatim>\<open>get_pixel\<close> returns the channel values, and each
  assignment through a pixel is written as an update of its image at its coordinate.
\<close>

record rgb =
  red :: int
  green :: int
  blue :: int

record image =
  width :: nat
  height :: nat
  px :: "int \<times> int \<Rightarrow> rgb"

definition in_bounds :: "image \<Rightarrow> int \<Rightarrow> int \<Rightarrow> bool" where
  "in_bounds img x y = (0 \<le> x \<and> x < int (width img) \<and> 0 \<le> y \<and> y < int (height img))"

definition get_pixel :: "image \<Rightarrow> int \<Rightarrow> int \<Rightarrow> error + rgb" where
  "get_pixel img x y =
     (if x < 0 \<or> x \<ge> int (width img) \<or> y < 0 \<or> y \<ge> int (height img)
      then Inl BadCoordinate else Inr (px img (x, y)))"

definition set_pixel :: "image \<Rightarrow> int \<Rightarrow> int \<Rightarrow> rgb \<Rightarrow> error + image" where
  "set_pixel img x y pixel =
     (if x < 0 \<or> x \<ge> int (width img) \<or> y < 0 \<or> y \<ge> int (height img)
      then Inl BadCoordinate else Inr (img\<lparr>px := (px img)((x, y) := pixel)\<rparr>))"

text \<open>A blank image is white.\<close>

definition blank :: "int \<Rightarrow> int \<Rightarrow> image" where
  "blank w h = \<lparr>width = nat w, height = nat h,
                px = (\<lambda>p. \<lparr>red = 255, green = 255, blue = 255\<rparr>)\<rparr>"

text \<open>\<^verbatim>\<open>for pixel in image\<close> visits every coordinate, row by row.\<close>

definition pixels :: "image \<Rightarrow> (int \<times> int) list" where
  "pixels img =
     concat (map (\<lambda>y. map (\<lambda>x. (x, y)) (py_range (int (width img))))
                 (py_range (int (height img))))"

section \<open>The program \<^verbatim>\<open>ct_scan.py\<close>\<close>

definition INTENSITY_MIN :: int where "INTENSITY_MIN = 210"
definition INTENSITY_MAX :: int where "INTENSITY_MAX = 245"
definition AREA_SIZE :: int where "AREA_SIZE = 100"
definition STEP_SIZE :: int where "STEP_SIZE = 50"
definition IMAGE_WIDTH :: int where "IMAGE_WIDTH = 400"
definition IMAGE_HEIGHT :: int where "IMAGE_HEIGHT = 300"

subsection \<open>\<^verbatim>\<open>highlight_areas\<close> (the spec's classify)\<close>

text \<open>
  The body of the loop of \<^verbatim>\<open>highlight_areas\<close> on one pixel: the three channels are
  set to their floor average, and a pixel whose average lies in
  \<open>[INTENSITY_MIN, INTENSITY_MAX]\<close> is then overwritten to \<open>(0, 255, 0)\<close>.
\<close>

definition highlight_pixel :: "rgb \<Rightarrow> rgb" where
  "highlight_pixel pixel =
     (let average = (red pixel + green pixel + blue pixel) div 3;
          pixel1 = pixel\<lparr>red := average, green := average, blue := average\<rparr>
      in if INTENSITY_MIN \<le> average \<and> average \<le> INTENSITY_MAX
         then pixel1\<lparr>red := 0, green := 255, blue := 0\<rparr>
         else pixel1)"

definition highlight_areas :: "image \<Rightarrow> image" where
  "highlight_areas img =
     foldl (\<lambda>im p. im\<lparr>px := (px im)(p := highlight_pixel (px im p))\<rparr>) img (pixels img)"

subsection \<open>\<^verbatim>\<open>get_area\<close> (the spec's sample)\<close>

definition get_area :: "image \<Rightarrow> int \<Rightarrow> int \<Rightarrow> error + image" where
  "get_area img n m =
     for_each (py_range AREA_SIZE) (\<lambda>y.
       for_each (py_range AREA_SIZE) (\<lambda>x area.
         case get_pixel img (x + n) (y + m) of
           Inl e \<Rightarrow> Inl e
         | Inr pixel \<Rightarrow> set_pixel area x y pixel))
       (blank AREA_SIZE AREA_SIZE)"

subsection \<open>\<^verbatim>\<open>get_green_agv\<close> (the spec's average marked intensity)\<close>

definition get_green_agv :: "image \<Rightarrow> error + int" where
  "get_green_agv img =
     (let (green_tot, green_highlights) =
            foldl (\<lambda>(green_tot, green_highlights) p.
                     if green (px img p) \<noteq> 255
                     then (green_tot + green (px img p), green_highlights)
                     else (green_tot, green_highlights + 1))
                  (0, 0) (pixels img);
          denominator = int (width img) * int (height img) - green_highlights
      in if denominator = 0 then Inl ZeroDivisionError else Inr (green_tot div denominator))"

subsection \<open>\<^verbatim>\<open>scan_area\<close>\<close>

text \<open>
  Lines 126 to 137 of \<^verbatim>\<open>scan_area\<close>: the chain of range tests that maps the
  whole-image average to the sensitivity band (the spec's \<^verbatim>\<open>select_band\<close>).
\<close>

definition select_band :: "int \<Rightarrow> int \<times> int" where
  "select_band image_green_avg =
     (if 80 < image_green_avg \<and> image_green_avg < 85 then (108, 110)
      else if 130 < image_green_avg \<and> image_green_avg < 135 then (140, 142)
      else if 105 < image_green_avg \<and> image_green_avg < 110 then (186, 188)
      else (10, 20))"

text \<open>
  The loop of lines 141 to 148: every pixel of the area is copied to the (discarded)
  image \<^verbatim>\<open>highlight\<close>, and a pixel on the outermost ring of the area is set to red in
  the area itself, since the pixel object refers to the area.
\<close>

definition mark_border_body :: "int \<Rightarrow> int \<Rightarrow> image \<times> image \<Rightarrow> error + image \<times> image" where
  "mark_border_body x y s =
     (case s of (area, highlight) \<Rightarrow>
        (case get_pixel area x y of
           Inl e \<Rightarrow> Inl e
         | Inr pixel \<Rightarrow>
             (case set_pixel highlight x y pixel of
                Inl e \<Rightarrow> Inl e
              | Inr highlight' \<Rightarrow>
                  if y = 0 \<or> y = AREA_SIZE - 1 \<or> x = 0 \<or> x = AREA_SIZE - 1
                  then Inr (area\<lparr>px := (px area)((x, y) := \<lparr>red = 255, green = 0, blue = 0\<rparr>)\<rparr>,
                            highlight')
                  else Inr (area, highlight'))))"

definition mark_border :: "image \<Rightarrow> error + image" where
  "mark_border area =
     (case for_each (py_range AREA_SIZE) (\<lambda>x.
             for_each (py_range AREA_SIZE) (\<lambda>y. mark_border_body x y))
           (area, blank AREA_SIZE AREA_SIZE) of
        Inl e \<Rightarrow> Inl e
      | Inr (area', highlight) \<Rightarrow> Inr area')"

text \<open>
  Lines 126 to 149 of \<^verbatim>\<open>scan_area\<close>, once both averages are known: the band is
  selected, and an area whose average lies in the band counts as one case and gets its
  border.
\<close>

definition confirm_area :: "image \<Rightarrow> int \<Rightarrow> int \<Rightarrow> error + image \<times> int" where
  "confirm_area area area_green_avg image_green_avg =
     (case select_band image_green_avg of (sensitivity_min, sensitivity_max) \<Rightarrow>
        if sensitivity_min \<le> area_green_avg \<and> area_green_avg \<le> sensitivity_max
        then (case mark_border area of Inl e \<Rightarrow> Inl e | Inr area' \<Rightarrow> Inr (area', 1))
        else Inr (area, 0))"

definition scan_area :: "image \<Rightarrow> image \<Rightarrow> error + image \<times> int" where
  "scan_area area img =
     (case get_green_agv area of
        Inl e \<Rightarrow> Inl e
      | Inr area_green_avg \<Rightarrow>
          (case get_green_agv img of
             Inl e \<Rightarrow> Inl e
           | Inr image_green_avg \<Rightarrow> confirm_area area area_green_avg image_green_avg))"

subsection \<open>\<^verbatim>\<open>add_area\<close>\<close>

definition add_area :: "image \<Rightarrow> image \<Rightarrow> int \<Rightarrow> int \<Rightarrow> error + image" where
  "add_area img red_area n m =
     (case for_each (py_range (int (width img))) (\<lambda>x.
             for_each (py_range (int (height img))) (\<lambda>y new_image.
               case get_pixel img x y of
                 Inl e \<Rightarrow> Inl e
               | Inr pixel \<Rightarrow> set_pixel new_image x y pixel))
           (blank (int (width img)) (int (height img))) of
        Inl e \<Rightarrow> Inl e
      | Inr new_image0 \<Rightarrow>
          for_each (py_range AREA_SIZE) (\<lambda>x.
            for_each (py_range AREA_SIZE) (\<lambda>y new_image.
              case get_pixel img x y of
                Inl e \<Rightarrow> Inl e
              | Inr pixel \<Rightarrow>
                  (case set_pixel new_image x y pixel of
                     Inl e \<Rightarrow> Inl e
                   | Inr new_image1 \<Rightarrow>
                       (case get_pixel red_area x y of
                          Inl e \<Rightarrow> Inl e
                        | Inr pixel' \<Rightarrow> set_pixel new_image1 (x + n) (y + m) pixel'))))
            new_image0)"

subsection \<open>\<^verbatim>\<open>find_cases\<close> (the spec's detect)\<close>

definition find_cases_body :: "int \<Rightarrow> int \<Rightarrow> image \<times> int \<Rightarrow> error + image \<times> int" where
  "find_cases_body x y s =
     (case s of (img, case_count) \<Rightarrow>
        (case get_area img x y of
           Inl e \<Rightarrow> Inl e
         | Inr scanned_area \<Rightarrow>
             (case scan_area scanned_area img of
                Inl e \<Rightarrow> Inl e
              | Inr (red_area, found) \<Rightarrow>
                  (case add_area img red_area x y of
                     Inl e \<Rightarrow> Inl e
                   | Inr img' \<Rightarrow> Inr (img', case_count + found)))))"

text \<open>
  The outer range is computed once from the image passed in; the inner range is
  computed at every outer iteration from the image the variable then holds.
\<close>

definition find_cases :: "image \<Rightarrow> error + image \<times> int" where
  "find_cases img =
     for_each (py_range3 0 (int (width img) - AREA_SIZE div 2) STEP_SIZE) (\<lambda>x s.
       for_each (py_range3 0 (int (height (fst s)) - AREA_SIZE div 2) STEP_SIZE)
         (\<lambda>y. find_cases_body x y) s)
       (img, 0)"

subsection \<open>\<^verbatim>\<open>remove_green\<close> (the spec's remap)\<close>

text \<open>
  The second argument of the source is a file name, from which the original image is
  loaded again; the model takes the loaded image.
\<close>

definition remove_green :: "image \<Rightarrow> image \<Rightarrow> error + image" where
  "remove_green img original =
     for_each (py_range (int (width img))) (\<lambda>x.
       for_each (py_range (int (height img))) (\<lambda>y new_image.
         case get_pixel img x y of
           Inl e \<Rightarrow> Inl e
         | Inr pixel \<Rightarrow>
             if red pixel = 255
             then set_pixel new_image
                    (x + (int (width new_image) - IMAGE_WIDTH) div 2)
                    (y + (int (height new_image) - IMAGE_HEIGHT) div 2) pixel
             else Inr new_image))
       original"

subsection \<open>\<^verbatim>\<open>locate_cases\<close> (the spec's locate)\<close>

definition locate_body :: "image \<Rightarrow> int \<Rightarrow> int \<Rightarrow> int list \<times> int list \<Rightarrow> error + int list \<times> int list" where
  "locate_body img x y s =
     (case s of (left, right) \<Rightarrow>
        (case get_pixel img x y of
           Inl e \<Rightarrow> Inl e
         | Inr pixel \<Rightarrow>
             if x < int (width img) div 2 \<and> red pixel = 255 \<and> green pixel = 0 \<and> blue pixel = 0
             then Inr (left @ [x], right)
             else if x > int (width img) div 2 \<and> red pixel = 255 \<and> green pixel = 0 \<and> blue pixel = 0
             then Inr (left, right @ [x])
             else Inr (left, right)))"

text \<open>The two lists \<^verbatim>\<open>left\<close> and \<^verbatim>\<open>right\<close> after the loops of \<^verbatim>\<open>locate_cases\<close>.\<close>

definition locate_lists :: "image \<Rightarrow> error + int list \<times> int list" where
  "locate_lists img =
     for_each (py_range (int (width img))) (\<lambda>x.
       for_each (py_range (int (height img))) (\<lambda>y. locate_body img x y))
       ([], [])"

definition locate_cases :: "image \<Rightarrow> error + string list" where
  "locate_cases img =
     (case locate_lists img of
        Inl e \<Rightarrow> Inl e
      | Inr (left, right) \<Rightarrow>
          Inr ((if left \<noteq> [] then [''left''] else []) @ (if right \<noteq> [] then [''right''] else [])))"

section \<open>Notions used in the statements\<close>

subsection \<open>Colours and example images\<close>

text \<open>The candidate marker \<open>(0, 255, 0)\<close>, a gray pixel, and pure red \<open>(255, 0, 0)\<close>.\<close>

definition marker :: rgb where
  "marker = \<lparr>red = 0, green = 255, blue = 0\<rparr>"

definition gray :: "int \<Rightarrow> rgb" where
  "gray v = \<lparr>red = v, green = v, blue = v\<rparr>"

definition pure_red :: "rgb \<Rightarrow> bool" where
  "pure_red pixel = (red pixel = 255 \<and> green pixel = 0 \<and> blue pixel = 0)"

text \<open>An image at the working resolution 400 by 300 whose pixels all have one colour.\<close>

definition uniform_image :: "rgb \<Rightarrow> image" where
  "uniform_image c = \<lparr>width = 400, height = 300, px = (\<lambda>p. c)\<rparr>"

text \<open>Small images on which the results are evaluated.\<close>

definition two_pixel_image :: image where
  "two_pixel_image = \<lparr>width = 2, height = 1, px = (\<lambda>p. if p = (0, 0) then gray 7 else marker)\<rparr>"

definition red_row :: image where
  "red_row = \<lparr>width = 3, height = 1, px = (\<lambda>p. \<lparr>red = 255, green = 0, blue = 0\<rparr>)\<rparr>"

definition black_row :: image where
  "black_row = \<lparr>width = 3, height = 1, px = (\<lambda>p. gray 0)\<rparr>"

definition mid_row :: image where
  "mid_row = \<lparr>width = 3, height = 1,
              px = (\<lambda>p. if p = (1, 0) then \<lparr>red = 255, green = 0, blue = 0\<rparr> else gray 0)\<rparr>"

subsection \<open>The average of \<^verbatim>\<open>get_green_agv\<close> in the spec's words\<close>

text \<open>
  The green values of the pixels that are not flagged (green is not 255), in iteration
  order, and division that truncates towards zero.
\<close>

definition unmarked_greens :: "image \<Rightarrow> int list" where
  "unmarked_greens img =
     map (\<lambda>p. green (px img p)) (filter (\<lambda>p. green (px img p) \<noteq> 255) (pixels img))"

definition trunc_div :: "int \<Rightarrow> int \<Rightarrow> int" where
  "trunc_div a b = sgn a * sgn b * (\<bar>a\<bar> div \<bar>b\<bar>)"

text \<open>The same pixels as a set of coordinates.\<close>

definition unmarked :: "image \<Rightarrow> (int \<times> int) set" where
  "unmarked img = {p. in_bounds img (fst p) (snd p) \<and> green (px img p) \<noteq> 255}"

subsection \<open>The pixels \<^verbatim>\<open>locate_cases\<close> counts\<close>

text \<open>
  The coordinates in the order of the loops of \<^verbatim>\<open>locate_cases\<close> (column by column),
  and those among them that hold a pure red pixel left, respectively right, of the
  column \<open>width // 2\<close>.
\<close>

definition columns :: "image \<Rightarrow> (int \<times> int) list" where
  "columns img = List.product (py_range (int (width img))) (py_range (int (height img)))"

definition left_hits :: "image \<Rightarrow> (int \<times> int) list" where
  "left_hits img = filter (\<lambda>p. fst p < int (width img) div 2 \<and> pure_red (px img p)) (columns img)"

definition right_hits :: "image \<Rightarrow> (int \<times> int) list" where
  "right_hits img = filter (\<lambda>p. fst p > int (width img) div 2 \<and> pure_red (px img p)) (columns img)"

subsection \<open>Windows, borders and merged images\<close>

text \<open>
  The 100 by 100 copy of the block of an image at offset \<open>(n, m)\<close>, which is what
  \<^verbatim>\<open>get_area\<close> returns for a block inside the image.
\<close>

definition window :: "image \<Rightarrow> int \<Rightarrow> int \<Rightarrow> image" where
  "window img n m =
     \<lparr>width = 100, height = 100,
      px = (\<lambda>p. if 0 \<le> fst p \<and> fst p < 100 \<and> 0 \<le> snd p \<and> snd p < 100
                 then px img (fst p + n, snd p + m)
                 else \<lparr>red = 255, green = 255, blue = 255\<rparr>)\<rparr>"

text \<open>Coordinates of an area, its outermost ring, and the area with its ring in red.\<close>

definition in_area :: "int \<times> int \<Rightarrow> bool" where
  "in_area p = (0 \<le> fst p \<and> fst p < 100 \<and> 0 \<le> snd p \<and> snd p < 100)"

definition on_ring :: "int \<times> int \<Rightarrow> bool" where
  "on_ring p = (snd p = 0 \<or> snd p = 99 \<or> fst p = 0 \<or> fst p = 99)"

definition bordered :: "image \<Rightarrow> image" where
  "bordered area =
     area\<lparr>px := (\<lambda>q. if in_area q \<and> on_ring q then \<lparr>red = 255, green = 0, blue = 0\<rparr> else px area q)\<rparr>"

definition area_list :: "(int \<times> int) list" where
  "area_list = List.product (py_range 100) (py_range 100)"

text \<open>
  In a list of coordinates visited in this order, no coordinate is the target, shifted
  by the offset, of itself or of a coordinate visited later.
\<close>

fun safe_order :: "int \<times> int \<Rightarrow> (int \<times> int) list \<Rightarrow> bool" where
  "safe_order off [] = True"
| "safe_order off (p # ps) =
     ((fst p - fst off, snd p - snd off) \<notin> set (p # ps) \<and> safe_order off ps)"

text \<open>
  The original with the pixels of the detection image whose red channel is 255 written
  over it at the centering offset.
\<close>

definition remapped :: "image \<Rightarrow> image \<Rightarrow> image" where
  "remapped detected original =
     original\<lparr>px := (\<lambda>q.
        let p = (fst q - (int (width original) - 400) div 2, snd q - (int (height original) - 300) div 2)
        in if in_bounds detected (fst p) (snd p) \<and> red (px detected p) = 255
           then px detected p else px original q)\<rparr>"


text \<open>
  The image \<^verbatim>\<open>add_area\<close> returns. Its merge loop first copies the pixel \<open>(x, y)\<close> of
  the image again and then writes the pixel of the area at \<open>(x + n, y + m)\<close>; a later
  iteration therefore overwrites, inside the top-left 100 by 100 block, what an earlier
  one wrote there from the area, unless the offset is \<open>(0, 0)\<close>.
\<close>

definition merged :: "image \<Rightarrow> image \<Rightarrow> int \<Rightarrow> int \<Rightarrow> image" where
  "merged img red_area n m =
     \<lparr>width = width img, height = height img,
      px = (\<lambda>q. if (n, m) \<noteq> (0, 0) \<and> in_area q then px img q
                 else if in_area (fst q - n, snd q - m) then px red_area (fst q - n, snd q - m)
                 else if in_bounds img (fst q) (snd q) then px img q
                 else \<lparr>red = 255, green = 255, blue = 255\<rparr>)\<rparr>"

text \<open>The offsets \<^verbatim>\<open>find_cases\<close> visits, in the order of its loops, and an offset whose
  window lies inside the image.\<close>

definition scan_offsets :: "image \<Rightarrow> (int \<times> int) list" where
  "scan_offsets img =
     List.product (py_range3 0 (int (width img) - AREA_SIZE div 2) STEP_SIZE)
                  (py_range3 0 (int (height img) - AREA_SIZE div 2) STEP_SIZE)"

definition valid_offset :: "image \<Rightarrow> int \<Rightarrow> int \<Rightarrow> bool" where
  "valid_offset img n m =
     (0 \<le> n \<and> n + 100 \<le> int (width img) \<and> 0 \<le> m \<and> m + 100 \<le> int (height img))"

text \<open>Pure red, the pixels of an image on the ring of the window at an offset, the band
  test of \<^verbatim>\<open>scan_area\<close>, and the image after one step of the scan.\<close>

definition red_px :: rgb where
  "red_px = \<lparr>red = 255, green = 0, blue = 0\<rparr>"

definition ring_of :: "int \<Rightarrow> int \<Rightarrow> int \<times> int \<Rightarrow> bool" where
  "ring_of n m q = (in_area (fst q - n, snd q - m) \<and> on_ring (fst q - n, snd q - m))"

definition in_band :: "int \<Rightarrow> int \<Rightarrow> bool" where
  "in_band area_green_avg image_green_avg =
     (fst (select_band image_green_avg) \<le> area_green_avg \<and>
      area_green_avg \<le> snd (select_band image_green_avg))"

definition stepped :: "image \<Rightarrow> int \<Rightarrow> int \<Rightarrow> bool \<Rightarrow> image" where
  "stepped img n m confirmed =
     merged img (if confirmed then bordered (window img n m) else window img n m) n m"

subsection \<open>The scan with the whole-image average computed once\<close>




subsection \<open>The scan of a uniform image\<close>

text \<open>
  A coordinate that lies on no ring of any window of the scan (rings lie in the columns
  and rows that are 0 or 49 modulo 50), and what holds of every image during the scan of
  a uniform gray image: a pixel is gray or red, and it is still gray when it lies on no
  ring or inside the first window but not on its ring.
\<close>

definition inner :: "int \<times> int \<Rightarrow> bool" where
  "inner q = (fst q mod 50 \<noteq> 0 \<and> fst q mod 50 \<noteq> 49 \<and> snd q mod 50 \<noteq> 0 \<and> snd q mod 50 \<noteq> 49)"

definition scan_inv :: "int \<Rightarrow> image \<Rightarrow> bool" where
  "scan_inv g img =
     (width img = 400 \<and> height img = 300 \<and>
      (\<forall>q. in_bounds img (fst q) (snd q) \<longrightarrow>
         (px img q = gray g \<or> px img q = red_px) \<and>
         (inner q \<or> (in_area q \<and> \<not> on_ring q) \<longrightarrow> px img q = gray g)))"


subsection \<open>Recomputing the whole-image average\<close>


text \<open>
  An image on which the whole-image average changes during the scan. The source image
  has the gray value 220 everywhere except at twelve pixels, the seeds, in the columns
  75, 175, 275, 375 and the rows 75, 175, 275; the seeds \<open>(75, 75)\<close> and \<open>(75, 175)\<close> have
  the gray value 109 and the other ten the gray value 78. \<^verbatim>\<open>highlight_areas\<close> marks every
  pixel but the seeds, so the averages are taken over seeds only.
\<close>

definition seed :: "int \<times> int \<Rightarrow> bool" where
  "seed q = ((fst q = 75 \<or> fst q = 175 \<or> fst q = 275 \<or> fst q = 375) \<and>
             (snd q = 75 \<or> snd q = 175 \<or> snd q = 275))"

definition seed_value :: "int \<times> int \<Rightarrow> int" where
  "seed_value q = (if fst q = 75 \<and> snd q \<noteq> 275 then 109 else 78)"

definition cx_source :: image where
  "cx_source = \<lparr>width = 400, height = 300,
                px = (\<lambda>q. if seed q then gray (seed_value q) else gray 220)\<rparr>"

definition cx_image :: image where
  "cx_image = highlight_areas cx_source"




section \<open>Loops, ranges and closed forms of the source functions\<close>

lemma for_each_append:
  "for_each (xs @ ys) body s =
     (case for_each xs body s of Inl e \<Rightarrow> Inl e | Inr s' \<Rightarrow> for_each ys body s')"
  by (induction xs arbitrary: s) (auto split: sum.splits)

lemma for_each_closed:
  assumes "\<And>k. k < n \<Longrightarrow> body (f k) (G k) = Inr (G (Suc k))"
  shows "for_each (map f [0..<n]) body (G 0) = Inr (G n)"
  using assms
proof (induction n)
  case 0
  show ?case by simp
next
  case (Suc n)
  have "for_each (map f [0..<n]) body (G 0) = Inr (G n)"
    using Suc by simp
  moreover have "body (f n) (G n) = Inr (G (Suc n))"
    using Suc.prems by simp
  ultimately show ?case
    by (simp add: for_each_append)
qed

lemma py_range_closed:
  assumes "\<And>k. k < nat n \<Longrightarrow> body (int k) (G k) = Inr (G (Suc k))"
  shows "for_each (py_range n) body (G 0) = Inr (G (nat n))"
  unfolding py_range_def using assms by (rule for_each_closed)

lemma get_area_row:
  assumes "0 \<le> n" "n + 100 \<le> int (width img)" "0 \<le> m + y" "m + y < int (height img)"
    and "width area = 100" "height area = 100" "0 \<le> y" "y < 100"
  shows "for_each (py_range 100) (\<lambda>x area.
           case get_pixel img (x + n) (y + m) of
             Inl e \<Rightarrow> Inl e
           | Inr pixel \<Rightarrow> set_pixel area x y pixel) area
         = Inr (area\<lparr>px := (\<lambda>p. if snd p = y \<and> 0 \<le> fst p \<and> fst p < 100
                               then px img (fst p + n, y + m) else px area p)\<rparr>)"
proof -
  define G where "G k = area\<lparr>px := (\<lambda>p. if snd p = y \<and> 0 \<le> fst p \<and> fst p < int k
                               then px img (fst p + n, y + m) else px area p)\<rparr>" for k :: nat
  have "for_each (py_range 100) (\<lambda>x area.
           case get_pixel img (x + n) (y + m) of
             Inl e \<Rightarrow> Inl e
           | Inr pixel \<Rightarrow> set_pixel area x y pixel) (G 0) = Inr (G (nat 100))"
  proof (rule py_range_closed)
    fix k :: nat assume "k < nat 100"
    then show "(case get_pixel img (int k + n) (y + m) of
             Inl e \<Rightarrow> Inl e
           | Inr pixel \<Rightarrow> set_pixel (G k) (int k) y pixel) = Inr (G (Suc k))"
      using assms by (auto simp: get_pixel_def set_pixel_def G_def fun_eq_iff)
  qed
  moreover have "G 0 = area" by (cases area) (auto simp: G_def fun_eq_iff)
  ultimately show ?thesis by (simp add: G_def)
qed

lemma get_area_ok:
  assumes "0 \<le> n" "n + 100 \<le> int (width img)" "0 \<le> m" "m + 100 \<le> int (height img)"
  shows "get_area img n m = Inr (window img n m)"
proof -
  define G where "G k = \<lparr>width = 100, height = 100,
      px = (\<lambda>p. if 0 \<le> fst p \<and> fst p < 100 \<and> 0 \<le> snd p \<and> snd p < int k
                 then px img (fst p + n, snd p + m)
                 else \<lparr>red = 255, green = 255, blue = 255\<rparr>)\<rparr>" for k :: nat
  have "for_each (py_range 100) (\<lambda>y.
       for_each (py_range 100) (\<lambda>x area.
         case get_pixel img (x + n) (y + m) of
           Inl e \<Rightarrow> Inl e
         | Inr pixel \<Rightarrow> set_pixel area x y pixel)) (G 0) = Inr (G (nat 100))"
  proof (rule py_range_closed)
    fix k :: nat assume k: "k < nat 100"
    have "for_each (py_range 100) (\<lambda>x area.
           case get_pixel img (x + n) (int k + m) of
             Inl e \<Rightarrow> Inl e
           | Inr pixel \<Rightarrow> set_pixel area x (int k) pixel) (G k)
         = Inr ((G k)\<lparr>px := (\<lambda>p. if snd p = int k \<and> 0 \<le> fst p \<and> fst p < 100
                               then px img (fst p + n, int k + m) else px (G k) p)\<rparr>)"
      using assms k by (intro get_area_row) (auto simp: G_def)
    also have "(G k)\<lparr>px := (\<lambda>p. if snd p = int k \<and> 0 \<le> fst p \<and> fst p < 100
                               then px img (fst p + n, int k + m) else px (G k) p)\<rparr> = G (Suc k)"
      by (auto simp: G_def fun_eq_iff)
    finally show "for_each (py_range 100) (\<lambda>x area.
           case get_pixel img (x + n) (int k + m) of
             Inl e \<Rightarrow> Inl e
           | Inr pixel \<Rightarrow> set_pixel area x (int k) pixel) (G k) = Inr (G (Suc k))" .
  qed
  moreover have "G 0 = blank 100 100" by (auto simp: G_def blank_def fun_eq_iff)
  moreover have "G (nat 100) = window img n m" by (simp add: G_def window_def)
  ultimately show ?thesis by (simp add: get_area_def AREA_SIZE_def)
qed


lemma set_py_range: "set (py_range n) = {0..<n}"
proof -
  have "int ` {0..<nat n} = {0..<n}"
  proof (rule set_eqI)
    fix x :: int
    show "x \<in> int ` {0..<nat n} \<longleftrightarrow> x \<in> {0..<n}"
    proof
      assume "x \<in> int ` {0..<nat n}"
      then show "x \<in> {0..<n}" by auto
    next
      assume "x \<in> {0..<n}"
      then have "x = int (nat x)" "nat x \<in> {0..<nat n}" by auto
      then show "x \<in> int ` {0..<nat n}" by (rule image_eqI)
    qed
  qed
  then show ?thesis by (simp add: py_range_def)
qed

lemma distinct_py_range: "distinct (py_range n)"
  by (simp add: py_range_def distinct_map inj_on_def)

lemma length_py_range: "length (py_range n) = nat n"
  by (simp add: py_range_def)

lemma pixels_product:
  "pixels img = map prod.swap (List.product (py_range (int (height img))) (py_range (int (width img))))"
  by (simp add: pixels_def product_concat_map map_concat comp_def)

lemma distinct_pixels: "distinct (pixels img)"
  by (simp add: pixels_product distinct_map distinct_product distinct_py_range)

lemma set_pixels: "set (pixels img) = {p. in_bounds img (fst p) (snd p)}"
  by (auto simp: pixels_product set_py_range in_bounds_def)

lemma length_pixels: "length (pixels img) = width img * height img"
  by (simp add: pixels_product length_py_range mult.commute)

lemma fold_update_px:
  "distinct ps \<Longrightarrow>
   foldl (\<lambda>im p. im\<lparr>px := (px im)(p := h (px im p))\<rparr>) img ps
     = img\<lparr>px := (\<lambda>p. if p \<in> set ps then h (px img p) else px img p)\<rparr>"
proof (induction ps arbitrary: img)
  case Nil
  show ?case by simp
next
  case (Cons q qs)
  define img1 where "img1 = img\<lparr>px := (px img)(q := h (px img q))\<rparr>"
  have "foldl (\<lambda>im p. im\<lparr>px := (px im)(p := h (px im p))\<rparr>) img (q # qs)
        = foldl (\<lambda>im p. im\<lparr>px := (px im)(p := h (px im p))\<rparr>) img1 qs"
    by (simp add: img1_def)
  also have "\<dots> = img1\<lparr>px := (\<lambda>p. if p \<in> set qs then h (px img1 p) else px img1 p)\<rparr>"
    using Cons.prems by (intro Cons.IH) simp
  also have "\<dots> = img\<lparr>px := (\<lambda>p. if p \<in> set (q # qs) then h (px img p) else px img p)\<rparr>"
    using Cons.prems by (cases img) (auto simp: img1_def fun_eq_iff)
  finally show ?case .
qed

lemma highlight_areas_closed:
  "highlight_areas img
     = img\<lparr>px := (\<lambda>p. if in_bounds img (fst p) (snd p) then highlight_pixel (px img p) else px img p)\<rparr>"
  by (simp add: highlight_areas_def fold_update_px distinct_pixels set_pixels)

lemma highlight_areas_dims [simp]:
  "width (highlight_areas img) = width img" "height (highlight_areas img) = height img"
  by (simp_all add: highlight_areas_closed)

lemma in_bounds_highlight [simp]:
  "in_bounds (highlight_areas img) x y = in_bounds img x y"
  by (simp add: in_bounds_def)

lemma px_highlight_areas:
  "px (highlight_areas img) p
     = (if in_bounds img (fst p) (snd p) then highlight_pixel (px img p) else px img p)"
  by (simp add: highlight_areas_closed)

lemma highlight_pixel_cases:
  "highlight_pixel q = marker \<or> (\<exists>a. highlight_pixel q = gray a \<and> \<not> (210 \<le> a \<and> a \<le> 245))"
  by (cases q) (auto simp: highlight_pixel_def Let_def marker_def gray_def INTENSITY_MIN_def INTENSITY_MAX_def)

lemma highlight_pixel_marker: "highlight_pixel marker = gray 85"
  by (simp add: highlight_pixel_def marker_def gray_def INTENSITY_MIN_def INTENSITY_MAX_def)

lemma highlight_pixel_gray:
  "\<not> (210 \<le> a \<and> a \<le> 245) \<Longrightarrow> highlight_pixel (gray a) = gray a"
  by (auto simp: highlight_pixel_def gray_def Let_def INTENSITY_MIN_def INTENSITY_MAX_def)

lemma green_fold:
  "foldl (\<lambda>(green_tot, green_highlights) p.
            if g p \<noteq> (255::int) then (green_tot + g p, green_highlights)
            else (green_tot, green_highlights + 1)) (t0, h0) ps
   = (t0 + sum_list (map g (filter (\<lambda>p. g p \<noteq> 255) ps)),
      h0 + int (length (filter (\<lambda>p. g p = 255) ps)))"
  by (induction ps arbitrary: t0 h0) auto

lemma count_unmarked:
  "int (width img) * int (height img) - int (length (filter (\<lambda>p. green (px img p) = 255) (pixels img)))
   = int (length (unmarked_greens img))"
proof -
  have "length (filter (\<lambda>p. green (px img p) \<noteq> 255) (pixels img))
        + length (filter (\<lambda>p. \<not> green (px img p) \<noteq> 255) (pixels img)) = length (pixels img)"
    by (rule sum_length_filter_compl)
  then have "length (unmarked_greens img) + length (filter (\<lambda>p. green (px img p) = 255) (pixels img))
        = width img * height img"
    by (simp add: unmarked_greens_def length_pixels)
  then have "int (length (unmarked_greens img)) + int (length (filter (\<lambda>p. green (px img p) = 255) (pixels img)))
        = int (width img) * int (height img)"
    by (metis of_nat_add of_nat_mult)
  then show ?thesis by simp
qed

lemma get_green_agv_closed:
  "get_green_agv img =
     (if unmarked_greens img = [] then Inl ZeroDivisionError
      else Inr (sum_list (unmarked_greens img) div int (length (unmarked_greens img))))"
proof -
  have "get_green_agv img =
     (if int (length (unmarked_greens img)) = 0 then Inl ZeroDivisionError
      else Inr (sum_list (unmarked_greens img) div int (length (unmarked_greens img))))"
    unfolding get_green_agv_def green_fold
    by (simp only: Let_def prod.case add_0 count_unmarked) (simp add: unmarked_greens_def)
  then show ?thesis by simp
qed

lemma unmarked_greens_empty:
  "unmarked_greens img = [] \<longleftrightarrow> (\<forall>p \<in> set (pixels img). green (px img p) = 255)"
  by (auto simp: unmarked_greens_def filter_empty_conv)

lemma trunc_div_nonneg: "0 \<le> a \<Longrightarrow> 0 < b \<Longrightarrow> trunc_div a b = a div b"
  by (cases "a = 0") (auto simp: trunc_div_def sgn_if)

lemma unmarked_greens_nonneg:
  "\<forall>p \<in> set (pixels img). 0 \<le> green (px img p) \<Longrightarrow> 0 \<le> sum_list (unmarked_greens img)"
  by (auto simp: unmarked_greens_def intro!: sum_list_nonneg)

lemma for_each_pure:
  assumes "\<And>x s. x \<in> set xs \<Longrightarrow> body x s = Inr (g x s)"
  shows "for_each xs body s = Inr (foldl (\<lambda>s x. g x s) s xs)"
  using assms by (induction xs arbitrary: s) auto

lemma for_each_nested_pure:
  assumes "\<And>x y s. x \<in> set xs \<Longrightarrow> y \<in> set ys \<Longrightarrow> body x y s = Inr (g (x, y) s)"
  shows "for_each xs (\<lambda>x. for_each ys (body x)) s
           = Inr (foldl (\<lambda>s p. g p s) s (List.product xs ys))"
  using assms
proof (induction xs arbitrary: s)
  case Nil
  show ?case by simp
next
  case (Cons x xs)
  have inner: "for_each ys (body x) s = Inr (foldl (\<lambda>s y. g (x, y) s) s ys)"
    by (rule for_each_pure) (simp add: Cons.prems)
  have rest: "for_each xs (\<lambda>x. for_each ys (body x)) t
           = Inr (foldl (\<lambda>s p. g p s) t (List.product xs ys))" for t
    by (rule Cons.IH) (simp add: Cons.prems)
  show ?case
    by (simp add: inner rest foldl_map)
qed

lemma set_columns: "set (columns img) = {p. in_bounds img (fst p) (snd p)}"
  by (auto simp: columns_def set_py_range in_bounds_def)

lemma get_pixel_range:
  "x \<in> set (py_range (int (width img))) \<Longrightarrow> y \<in> set (py_range (int (height img))) \<Longrightarrow>
   get_pixel img x y = Inr (px img (x, y))"
  by (simp add: set_py_range get_pixel_def)

lemma locate_fold:
  "foldl (\<lambda>s p. case s of (left, right) \<Rightarrow>
            if fst p < mid \<and> pure_red (f p) then (left @ [fst p], right)
            else if fst p > mid \<and> pure_red (f p) then (left, right @ [fst p])
            else (left, right)) (l0, r0) ps
   = (l0 @ map fst (filter (\<lambda>p. fst p < (mid::int) \<and> pure_red (f p)) ps),
      r0 @ map fst (filter (\<lambda>p. fst p > mid \<and> pure_red (f p)) ps))"
  by (induction ps arbitrary: l0 r0) auto

lemma locate_lists_closed:
  "locate_lists img = Inr (map fst (left_hits img), map fst (right_hits img))"
proof -
  have "locate_lists img
        = Inr (foldl (\<lambda>s p. case s of (left, right) \<Rightarrow>
            if fst p < int (width img) div 2 \<and> pure_red (px img p) then (left @ [fst p], right)
            else if fst p > int (width img) div 2 \<and> pure_red (px img p) then (left, right @ [fst p])
            else (left, right)) ([], []) (columns img))"
    unfolding locate_lists_def columns_def
    by (rule for_each_nested_pure)
       (auto simp: locate_body_def get_pixel_range pure_red_def split: prod.splits)
  then show ?thesis
    by (simp add: locate_fold left_hits_def right_hits_def)
qed

lemma locate_cases_closed:
  "locate_cases img
     = Inr ((if left_hits img \<noteq> [] then [''left''] else []) @
            (if right_hits img \<noteq> [] then [''right''] else []))"
  by (simp add: locate_cases_def locate_lists_closed)

lemma for_each_inv:
  assumes "I s" and "\<And>x s. x \<in> set xs \<Longrightarrow> I s \<Longrightarrow> body x s = Inr (g x s) \<and> I (g x s)"
  shows "for_each xs body s = Inr (foldl (\<lambda>s x. g x s) s xs) \<and> I (foldl (\<lambda>s x. g x s) s xs)"
  using assms by (induction xs arbitrary: s) auto

lemma for_each_nested_inv:
  assumes "I s"
    and "\<And>x y s. x \<in> set xs \<Longrightarrow> y \<in> set ys \<Longrightarrow> I s \<Longrightarrow> body x y s = Inr (g (x, y) s) \<and> I (g (x, y) s)"
  shows "for_each xs (\<lambda>x. for_each ys (body x)) s
           = Inr (foldl (\<lambda>s p. g p s) s (List.product xs ys)) \<and>
         I (foldl (\<lambda>s p. g p s) s (List.product xs ys))"
  using assms
proof (induction xs arbitrary: s)
  case Nil
  then show ?case by simp
next
  case (Cons x xs)
  have inner: "for_each ys (body x) s = Inr (foldl (\<lambda>s y. g (x, y) s) s ys) \<and>
               I (foldl (\<lambda>s y. g (x, y) s) s ys)"
    by (rule for_each_inv [where I = I]) (simp_all add: Cons.prems)
  define s1 where "s1 = foldl (\<lambda>s y. g (x, y) s) s ys"
  have rest: "for_each xs (\<lambda>x. for_each ys (body x)) s1
           = Inr (foldl (\<lambda>s p. g p s) s1 (List.product xs ys)) \<and>
         I (foldl (\<lambda>s p. g p s) s1 (List.product xs ys))"
    using inner by (intro Cons.IH) (simp_all add: Cons.prems s1_def)
  show ?case
    using inner rest by (simp add: foldl_map s1_def)
qed

lemma fold_write:
  assumes "\<And>p. t' (t p) = p" and "\<And>q. t (t' q) = q"
  shows "foldl (\<lambda>s p. if c p then s\<lparr>px := (px s)(t p := v p)\<rparr> else s) s ps
         = s\<lparr>px := (\<lambda>q. if t' q \<in> set ps \<and> c (t' q) then v (t' q) else px s q)\<rparr>"
proof (induction ps arbitrary: s)
  case Nil
  show ?case by simp
next
  case (Cons p ps)
  define s1 where "s1 = (if c p then s\<lparr>px := (px s)(t p := v p)\<rparr> else s)"
  have "foldl (\<lambda>s p. if c p then s\<lparr>px := (px s)(t p := v p)\<rparr> else s) s (p # ps)
        = foldl (\<lambda>s p. if c p then s\<lparr>px := (px s)(t p := v p)\<rparr> else s) s1 ps"
    by (simp add: s1_def)
  also have "\<dots> = s1\<lparr>px := (\<lambda>q. if t' q \<in> set ps \<and> c (t' q) then v (t' q) else px s1 q)\<rparr>"
    by (rule Cons.IH)
  also have "\<dots> = s\<lparr>px := (\<lambda>q. if t' q \<in> set (p # ps) \<and> c (t' q) then v (t' q) else px s q)\<rparr>"
  proof -
    have "(if t' q \<in> set ps \<and> c (t' q) then v (t' q) else px s1 q)
          = (if t' q \<in> set (p # ps) \<and> c (t' q) then v (t' q) else px s q)" for q
      using assms(1) [of p] assms(2) [of q] by (auto simp: s1_def)
    then show ?thesis
      by (cases s) (auto simp: s1_def fun_eq_iff)
  qed
  finally show ?case .
qed

lemma fold_write_dims:
  "width (foldl (\<lambda>s p. if c p then s\<lparr>px := (px s)(t p := v p)\<rparr> else s) s ps) = width s \<and>
   height (foldl (\<lambda>s p. if c p then s\<lparr>px := (px s)(t p := v p)\<rparr> else s) s ps) = height s"
  by (induction ps arbitrary: s) auto

lemma remove_green_closed:
  assumes "int (width detected) + (int (width original) - 400) div 2 \<le> int (width original)"
    and "int (height detected) + (int (height original) - 300) div 2 \<le> int (height original)"
    and "400 \<le> width original" "300 \<le> height original"
  shows "remove_green detected original = Inr (remapped detected original)"
proof -
  define ox where "ox = (int (width original) - 400) div 2"
  define oy where "oy = (int (height original) - 300) div 2"
  have o: "0 \<le> ox" "0 \<le> oy" using assms by (simp_all add: ox_def oy_def)
  define I where "I s \<longleftrightarrow> width s = width original \<and> height s = height original" for s :: image
  define g where "g p s = (if red (px detected p) = 255
       then s\<lparr>px := (px s)((fst p + ox, snd p + oy) := px detected p)\<rparr> else s)" for p and s :: image
  have step: "(case get_pixel detected x y of
           Inl e \<Rightarrow> Inl e
         | Inr pixel \<Rightarrow>
             if red pixel = 255
             then set_pixel s
                    (x + (int (width s) - IMAGE_WIDTH) div 2)
                    (y + (int (height s) - IMAGE_HEIGHT) div 2) pixel
             else Inr s) = Inr (g (x, y) s) \<and> I (g (x, y) s)"
    if "x \<in> set (py_range (int (width detected)))" "y \<in> set (py_range (int (height detected)))" "I s"
    for x y s
    using that assms(1,2) o
    by (auto simp: get_pixel_range g_def I_def set_pixel_def IMAGE_WIDTH_def IMAGE_HEIGHT_def
        ox_def oy_def set_py_range)
  have "remove_green detected original
        = Inr (foldl (\<lambda>s p. g p s) original (columns detected))"
    unfolding remove_green_def columns_def
    using for_each_nested_inv [where I = I and g = g, OF _ step] by (simp add: I_def)
  also have "foldl (\<lambda>s p. g p s) original (columns detected)
        = original\<lparr>px := (\<lambda>q. if (fst q - ox, snd q - oy) \<in> set (columns detected)
              \<and> red (px detected (fst q - ox, snd q - oy)) = 255
            then px detected (fst q - ox, snd q - oy) else px original q)\<rparr>"
    unfolding g_def
    by (rule fold_write [where t' = "\<lambda>q. (fst q - ox, snd q - oy)"]) simp_all
  also have "\<dots> = remapped detected original"
    unfolding ox_def oy_def remapped_def Let_def set_columns by simp
  finally show ?thesis .
qed


lemma set_area_list: "set area_list = {p. in_area p}"
  by (auto simp: area_list_def set_py_range in_area_def)

lemma fst_fold_pair:
  "fst (foldl (\<lambda>s p. (f p (fst s), h p s)) (a, b) ps) = foldl (\<lambda>a p. f p a) a ps"
  by (induction ps arbitrary: a b) auto

lemma mark_border_closed:
  assumes "width area = 100" "height area = 100"
  shows "mark_border area = Inr (bordered area)"
proof -
  define I where "I s \<longleftrightarrow> width (fst s) = 100 \<and> height (fst s) = 100 \<and>
                        width (snd s) = 100 \<and> height (snd s) = 100" for s :: "image \<times> image"
  define f where "f p a = (if on_ring p then a\<lparr>px := (px a)(p := \<lparr>red = 255, green = 0, blue = 0\<rparr>)\<rparr> else a)"
    for p and a :: image
  define h where "h p s = (snd s)\<lparr>px := (px (snd s))(p := px (fst s) p)\<rparr>" for p and s :: "image \<times> image"
  have step: "mark_border_body x y s = Inr (f (x, y) (fst s), h (x, y) s) \<and> I (f (x, y) (fst s), h (x, y) s)"
    if "x \<in> set (py_range 100)" "y \<in> set (py_range 100)" "I s" for x y s
    using that
    by (cases s)
       (auto simp: mark_border_body_def I_def f_def h_def get_pixel_def set_pixel_def
          set_py_range on_ring_def AREA_SIZE_def)
  have "for_each (py_range 100) (\<lambda>x. for_each (py_range 100) (\<lambda>y. mark_border_body x y))
          (area, blank 100 100)
        = Inr (foldl (\<lambda>s p. (f p (fst s), h p s)) (area, blank 100 100) area_list)"
    unfolding area_list_def
    using for_each_nested_inv [where I = I and g = "\<lambda>p s. (f p (fst s), h p s)"
        and body = mark_border_body, OF _ step]
    by (simp add: I_def assms blank_def)
  then have "mark_border area
        = Inr (fst (foldl (\<lambda>s p. (f p (fst s), h p s)) (area, blank 100 100) area_list))"
    by (simp add: mark_border_def AREA_SIZE_def split: prod.splits)
  also have "fst (foldl (\<lambda>s p. (f p (fst s), h p s)) (area, blank 100 100) area_list)
        = foldl (\<lambda>a p. f p a) area area_list"
    by (rule fst_fold_pair)
  also have "\<dots> = area\<lparr>px := (\<lambda>q. if q \<in> set area_list \<and> on_ring q
                       then \<lparr>red = 255, green = 0, blue = 0\<rparr> else px area q)\<rparr>"
    unfolding f_def by (rule fold_write [where t' = "\<lambda>q. q"]) simp_all
  also have "\<dots> = bordered area"
    by (simp add: bordered_def set_area_list)
  finally show ?thesis .
qed

text \<open>Writes of the merge loop of add_area: order of the two kinds of writes.\<close>

lemma safe_order_append:
  "safe_order off (as @ bs) \<longleftrightarrow>
     safe_order off as \<and> safe_order off bs \<and>
     (\<forall>p \<in> set as. (fst p - fst off, snd p - snd off) \<notin> set bs)"
  by (induction as) auto

lemma safe_order_column:
  assumes "sorted_wrt (<) ys" "0 \<le> m" "0 \<le> n" "(n, m) \<noteq> (0, 0)"
  shows "safe_order (n, m) (map (Pair x) ys)"
  using assms(1)
proof (induction ys)
  case Nil
  show ?case by simp
next
  case (Cons y ys)
  have "(x - n, y - m) \<noteq> (x, y)" using assms by auto
  moreover have "(x - n, y - m) \<notin> Pair x ` set ys"
    using Cons.prems assms(2) by fastforce
  ultimately show ?case using Cons by simp
qed

lemma safe_order_product:
  assumes "sorted_wrt (<) xs" "sorted_wrt (<) ys" "0 \<le> m" "0 \<le> n" "(n, m) \<noteq> (0, 0)"
  shows "safe_order (n, m) (List.product xs ys)"
  using assms(1)
proof (induction xs)
  case Nil
  show ?case by simp
next
  case (Cons x xs)
  have "safe_order (n, m) (map (Pair x) ys)"
    using assms by (intro safe_order_column)
  moreover have "safe_order (n, m) (List.product xs ys)"
    using Cons by simp
  moreover have "\<forall>p \<in> set (map (Pair x) ys). (fst p - n, snd p - m) \<notin> set (List.product xs ys)"
    using Cons.prems assms(4) by fastforce
  ultimately show ?case
    by (simp add: safe_order_append)
qed

lemma sorted_py_range: "sorted_wrt (<) (py_range n)"
  by (simp add: py_range_def sorted_wrt_map)

lemma safe_order_area:
  "0 \<le> m \<Longrightarrow> 0 \<le> n \<Longrightarrow> (n, m) \<noteq> (0, 0) \<Longrightarrow> safe_order (n, m) area_list"
  unfolding area_list_def by (intro safe_order_product sorted_py_range)

lemma fold_two_writes:
  assumes "safe_order off ps"
  shows "foldl (\<lambda>s p. s\<lparr>px := ((px s)(p := v p))((fst p + fst off, snd p + snd off) := r p)\<rparr>) s ps
         = s\<lparr>px := (\<lambda>q. if q \<in> set ps then v q
                         else if (fst q - fst off, snd q - snd off) \<in> set ps
                         then r (fst q - fst off, snd q - snd off) else px s q)\<rparr>"
  using assms
proof (induction ps arbitrary: s)
  case Nil
  show ?case by simp
next
  case (Cons p ps)
  define s1 where "s1 = s\<lparr>px := ((px s)(p := v p))((fst p + fst off, snd p + snd off) := r p)\<rparr>"
  have "foldl (\<lambda>s p. s\<lparr>px := ((px s)(p := v p))((fst p + fst off, snd p + snd off) := r p)\<rparr>) s (p # ps)
        = foldl (\<lambda>s p. s\<lparr>px := ((px s)(p := v p))((fst p + fst off, snd p + snd off) := r p)\<rparr>) s1 ps"
    by (simp add: s1_def)
  also have "\<dots> = s1\<lparr>px := (\<lambda>q. if q \<in> set ps then v q
                         else if (fst q - fst off, snd q - snd off) \<in> set ps
                         then r (fst q - fst off, snd q - snd off) else px s1 q)\<rparr>"
    using Cons.prems by (intro Cons.IH) simp
  also have "\<dots> = s\<lparr>px := (\<lambda>q. if q \<in> set (p # ps) then v q
                         else if (fst q - fst off, snd q - snd off) \<in> set (p # ps)
                         then r (fst q - fst off, snd q - snd off) else px s q)\<rparr>"
  proof -
    have "(if q \<in> set ps then v q
           else if (fst q - fst off, snd q - snd off) \<in> set ps
           then r (fst q - fst off, snd q - snd off) else px s1 q)
        = (if q \<in> set (p # ps) then v q
           else if (fst q - fst off, snd q - snd off) \<in> set (p # ps)
           then r (fst q - fst off, snd q - snd off) else px s q)" for q
    proof (cases "q = p")
      case True
      have "(fst p - fst off, snd p - snd off) \<noteq> p" using Cons.prems by simp
      then have "(fst p + fst off, snd p + snd off) \<noteq> p" by (cases p) auto
      then show ?thesis using True Cons.prems by (auto simp: s1_def)
    next
      case False
      show ?thesis
      proof (cases "q = (fst p + fst off, snd p + snd off)")
        case True
        then have "(fst q - fst off, snd q - snd off) = p" by simp
        then show ?thesis using False True by (auto simp: s1_def)
      next
        case False
        then have "(fst q - fst off, snd q - snd off) \<noteq> p" by (cases q) auto
        then show ?thesis using False \<open>q \<noteq> p\<close> by (auto simp: s1_def)
      qed
    qed
    then show ?thesis
      by (cases s) (simp add: s1_def fun_eq_iff)
  qed
  finally show ?case .
qed

lemma highlight_uniform:
  "px (highlight_areas (uniform_image c)) (0, 0) = highlight_pixel c"
  by (simp add: px_highlight_areas in_bounds_def uniform_image_def)

lemma highlight_gray_220: "highlight_pixel (gray 220) = marker"
  by (simp add: highlight_pixel_def gray_def marker_def INTENSITY_MIN_def INTENSITY_MAX_def)

section \<open>One step of the scan\<close>

lemma add_area_copy:
  "for_each (py_range (int (width img))) (\<lambda>x.
     for_each (py_range (int (height img))) (\<lambda>y new_image.
       case get_pixel img x y of
         Inl e \<Rightarrow> Inl e
       | Inr pixel \<Rightarrow> set_pixel new_image x y pixel))
     (blank (int (width img)) (int (height img)))
   = Inr \<lparr>width = width img, height = height img,
          px = (\<lambda>q. if in_bounds img (fst q) (snd q) then px img q
                     else \<lparr>red = 255, green = 255, blue = 255\<rparr>)\<rparr>"
proof -
  define I where "I s \<longleftrightarrow> width s = width img \<and> height s = height img" for s :: image
  define g where "g p s = (if True then s\<lparr>px := (px s)(p := px img p)\<rparr> else s)" for p and s :: image
  have step: "(case get_pixel img x y of
         Inl e \<Rightarrow> Inl e
       | Inr pixel \<Rightarrow> set_pixel s x y pixel) = Inr (g (x, y) s) \<and> I (g (x, y) s)"
    if "x \<in> set (py_range (int (width img)))" "y \<in> set (py_range (int (height img)))" "I s"
    for x y s
    using that by (auto simp: get_pixel_range g_def I_def set_pixel_def set_py_range)
  have "for_each (py_range (int (width img))) (\<lambda>x.
     for_each (py_range (int (height img))) (\<lambda>y new_image.
       case get_pixel img x y of
         Inl e \<Rightarrow> Inl e
       | Inr pixel \<Rightarrow> set_pixel new_image x y pixel))
     (blank (int (width img)) (int (height img)))
     = Inr (foldl (\<lambda>s p. g p s) (blank (int (width img)) (int (height img))) (columns img))"
    unfolding columns_def
    using for_each_nested_inv [where I = I and g = g, OF _ step] by (simp add: I_def blank_def)
  also have "foldl (\<lambda>s p. g p s) (blank (int (width img)) (int (height img))) (columns img)
     = (blank (int (width img)) (int (height img)))\<lparr>px := (\<lambda>q. if q \<in> set (columns img) \<and> True
           then px img q else px (blank (int (width img)) (int (height img))) q)\<rparr>"
    unfolding g_def by (rule fold_write [where t' = "\<lambda>q. q"]) simp_all
  also have "\<dots> = \<lparr>width = width img, height = height img,
          px = (\<lambda>q. if in_bounds img (fst q) (snd q) then px img q
                     else \<lparr>red = 255, green = 255, blue = 255\<rparr>)\<rparr>"
    by (auto simp: set_columns blank_def fun_eq_iff)
  finally show ?thesis .
qed

lemma add_area_merge:
  assumes "100 \<le> width img" "100 \<le> height img"
    and "0 \<le> n" "n + 100 \<le> int (width img)" "0 \<le> m" "m + 100 \<le> int (height img)"
    and "width red_area = 100" "height red_area = 100"
    and "width s0 = width img" "height s0 = height img"
  shows "for_each (py_range 100) (\<lambda>x.
            for_each (py_range 100) (\<lambda>y new_image.
              case get_pixel img x y of
                Inl e \<Rightarrow> Inl e
              | Inr pixel \<Rightarrow>
                  (case set_pixel new_image x y pixel of
                     Inl e \<Rightarrow> Inl e
                   | Inr new_image1 \<Rightarrow>
                       (case get_pixel red_area x y of
                          Inl e \<Rightarrow> Inl e
                        | Inr pixel' \<Rightarrow> set_pixel new_image1 (x + n) (y + m) pixel'))))
            s0
         = Inr (s0\<lparr>px := (\<lambda>q. if (n, m) \<noteq> (0, 0) \<and> in_area q then px img q
                 else if in_area (fst q - n, snd q - m) then px red_area (fst q - n, snd q - m)
                 else px s0 q)\<rparr>)"
proof -
  define I where "I s \<longleftrightarrow> width s = width img \<and> height s = height img" for s :: image
  define g where "g p s = s\<lparr>px := ((px s)(p := px img p))((fst p + fst (n, m), snd p + snd (n, m)) := px red_area p)\<rparr>"
    for p and s :: image
  have step: "(case get_pixel img x y of
                Inl e \<Rightarrow> Inl e
              | Inr pixel \<Rightarrow>
                  (case set_pixel s x y pixel of
                     Inl e \<Rightarrow> Inl e
                   | Inr new_image1 \<Rightarrow>
                       (case get_pixel red_area x y of
                          Inl e \<Rightarrow> Inl e
                        | Inr pixel' \<Rightarrow> set_pixel new_image1 (x + n) (y + m) pixel')))
              = Inr (g (x, y) s) \<and> I (g (x, y) s)"
    if "x \<in> set (py_range 100)" "y \<in> set (py_range 100)" "I s" for x y s
    using that assms
    by (auto simp: get_pixel_def g_def I_def set_pixel_def set_py_range)
  have run: "for_each (py_range 100) (\<lambda>x.
            for_each (py_range 100) (\<lambda>y new_image.
              case get_pixel img x y of
                Inl e \<Rightarrow> Inl e
              | Inr pixel \<Rightarrow>
                  (case set_pixel new_image x y pixel of
                     Inl e \<Rightarrow> Inl e
                   | Inr new_image1 \<Rightarrow>
                       (case get_pixel red_area x y of
                          Inl e \<Rightarrow> Inl e
                        | Inr pixel' \<Rightarrow> set_pixel new_image1 (x + n) (y + m) pixel'))))
            s0 = Inr (foldl (\<lambda>s p. g p s) s0 area_list)"
    unfolding area_list_def
    using for_each_nested_inv [where I = I and g = g, OF _ step] assms(9,10) by (simp add: I_def)
  show ?thesis
  proof (cases "(n, m) = (0, 0)")
    case True
    have "g p s = (if True then s\<lparr>px := (px s)(p := px red_area p)\<rparr> else s)" for p s
      using True by (simp add: g_def)
    then have "foldl (\<lambda>s p. g p s) s0 area_list
        = foldl (\<lambda>s p. if True then s\<lparr>px := (px s)(p := px red_area p)\<rparr> else s) s0 area_list"
      by simp
    also have "\<dots> = s0\<lparr>px := (\<lambda>q. if q \<in> set area_list \<and> True then px red_area q else px s0 q)\<rparr>"
      by (rule fold_write [where t' = "\<lambda>q. q"]) simp_all
    also have "\<dots> = s0\<lparr>px := (\<lambda>q. if (n, m) \<noteq> (0, 0) \<and> in_area q then px img q
                 else if in_area (fst q - n, snd q - m) then px red_area (fst q - n, snd q - m)
                 else px s0 q)\<rparr>"
      using True by (auto simp: set_area_list fun_eq_iff)
    finally show ?thesis using run by simp
  next
    case False
    have "safe_order (n, m) area_list"
      using assms(3,5) False by (intro safe_order_area)
    then have "foldl (\<lambda>s p. g p s) s0 area_list
        = s0\<lparr>px := (\<lambda>q. if q \<in> set area_list then px img q
                         else if (fst q - fst (n, m), snd q - snd (n, m)) \<in> set area_list
                         then px red_area (fst q - fst (n, m), snd q - snd (n, m)) else px s0 q)\<rparr>"
      unfolding g_def by (rule fold_two_writes)
    also have "\<dots> = s0\<lparr>px := (\<lambda>q. if (n, m) \<noteq> (0, 0) \<and> in_area q then px img q
                 else if in_area (fst q - n, snd q - m) then px red_area (fst q - n, snd q - m)
                 else px s0 q)\<rparr>"
      using False by (auto simp: set_area_list fun_eq_iff)
    finally show ?thesis using run by simp
  qed
qed

lemma add_area_closed:
  assumes "100 \<le> width img" "100 \<le> height img"
    and "0 \<le> n" "n + 100 \<le> int (width img)" "0 \<le> m" "m + 100 \<le> int (height img)"
    and "width red_area = 100" "height red_area = 100"
  shows "add_area img red_area n m = Inr (merged img red_area n m)"
proof -
  define s0 where "s0 = \<lparr>width = width img, height = height img,
          px = (\<lambda>q. if in_bounds img (fst q) (snd q) then px img q
                     else \<lparr>red = 255, green = 255, blue = 255\<rparr>)\<rparr>"
  have d: "width s0 = width img" "height s0 = height img"
    by (simp_all add: s0_def)
  have "add_area img red_area n m
        = Inr (s0\<lparr>px := (\<lambda>q. if (n, m) \<noteq> (0, 0) \<and> in_area q then px img q
                 else if in_area (fst q - n, snd q - m) then px red_area (fst q - n, snd q - m)
                 else px s0 q)\<rparr>)"
    unfolding add_area_def add_area_copy AREA_SIZE_def
    using add_area_merge [OF assms d] by (simp add: s0_def)
  also have "s0\<lparr>px := (\<lambda>q. if (n, m) \<noteq> (0, 0) \<and> in_area q then px img q
                 else if in_area (fst q - n, snd q - m) then px red_area (fst q - n, snd q - m)
                 else px s0 q)\<rparr> = merged img red_area n m"
    by (auto simp: s0_def merged_def fun_eq_iff)
  finally show ?thesis .
qed

lemma for_each_preserves:
  assumes "for_each xs body s = Inr s'" "P s" "\<And>x t t'. x \<in> set xs \<Longrightarrow> P t \<Longrightarrow> body x t = Inr t' \<Longrightarrow> P t'"
  shows "P s'"
  using assms
proof (induction xs arbitrary: s)
  case Nil
  then show ?case by simp
next
  case (Cons x xs)
  from Cons.prems(1) obtain t where t: "body x s = Inr t" "for_each xs body t = Inr s'"
    by (auto split: sum.splits)
  have "P t" using Cons.prems(3) [of x s t] Cons.prems(2) t(1) by simp
  then show ?case
    by (rule Cons.IH [OF t(2)]) (rule Cons.prems(3), simp_all)
qed

lemma for_each_flatten:
  assumes "I s0"
    and "\<And>x y s s'. I s \<Longrightarrow> body x y s = Inr s' \<Longrightarrow> I s'"
    and "\<And>s. I s \<Longrightarrow> ysf s = ys"
  shows "for_each xs (\<lambda>x s. for_each (ysf s) (body x) s) s0
         = for_each (List.product xs ys) (\<lambda>p. body (fst p) (snd p)) s0"
  using assms(1)
proof (induction xs arbitrary: s0)
  case Nil
  show ?case by simp
next
  case (Cons x xs)
  have col: "for_each (map (Pair x) ys) (\<lambda>p. body (fst p) (snd p)) s = for_each ys (body x) s" for s
    by (induction ys arbitrary: s) (auto split: sum.splits)
  show ?case
  proof (cases "for_each ys (body x) s0")
    case (Inl e)
    then show ?thesis
      using Cons.prems by (simp add: assms(3) for_each_append col)
  next
    case (Inr s1)
    have "I s1"
      using Inr Cons.prems by (rule for_each_preserves) (rule assms(2))
    then show ?thesis
      using Inr Cons.prems Cons.IH [of s1] by (simp add: assms(3) for_each_append col)
  qed
qed

lemma set_pixel_dims:
  "set_pixel s x y c = Inr s' \<Longrightarrow> width s' = width s \<and> height s' = height s"
  by (auto simp: set_pixel_def split: if_splits)

lemma add_area_dims:
  assumes "add_area img red_area n m = Inr out"
  shows "width out = width img \<and> height out = height img"
proof -
  define P where "P s \<longleftrightarrow> width s = width img \<and> height s = height img" for s :: image
  have inner1: "P t'" if "for_each (py_range (int (height img))) (\<lambda>y new_image.
               case get_pixel img x y of
                 Inl e \<Rightarrow> Inl e
               | Inr pixel \<Rightarrow> set_pixel new_image x y pixel) t = Inr t'" "P t" for x t t'
    using that
    by (rule for_each_preserves) (auto simp: P_def split: sum.splits dest!: set_pixel_dims)
  have inner2: "P t'" if "for_each (py_range AREA_SIZE) (\<lambda>y new_image.
              case get_pixel img x y of
                Inl e \<Rightarrow> Inl e
              | Inr pixel \<Rightarrow>
                  (case set_pixel new_image x y pixel of
                     Inl e \<Rightarrow> Inl e
                   | Inr new_image1 \<Rightarrow>
                       (case get_pixel red_area x y of
                          Inl e \<Rightarrow> Inl e
                        | Inr pixel' \<Rightarrow> set_pixel new_image1 (x + n) (y + m) pixel'))) t = Inr t'" "P t"
    for x t t'
    using that
    by (rule for_each_preserves) (auto simp: P_def split: sum.splits dest!: set_pixel_dims)
  from assms obtain s0 where
    a: "for_each (py_range (int (width img))) (\<lambda>x.
             for_each (py_range (int (height img))) (\<lambda>y new_image.
               case get_pixel img x y of
                 Inl e \<Rightarrow> Inl e
               | Inr pixel \<Rightarrow> set_pixel new_image x y pixel))
           (blank (int (width img)) (int (height img))) = Inr s0"
    and b: "for_each (py_range AREA_SIZE) (\<lambda>x.
            for_each (py_range AREA_SIZE) (\<lambda>y new_image.
              case get_pixel img x y of
                Inl e \<Rightarrow> Inl e
              | Inr pixel \<Rightarrow>
                  (case set_pixel new_image x y pixel of
                     Inl e \<Rightarrow> Inl e
                   | Inr new_image1 \<Rightarrow>
                       (case get_pixel red_area x y of
                          Inl e \<Rightarrow> Inl e
                        | Inr pixel' \<Rightarrow> set_pixel new_image1 (x + n) (y + m) pixel'))))
            s0 = Inr out"
    by (auto simp: add_area_def split: sum.splits)
  have "P (blank (int (width img)) (int (height img)))"
    by (simp add: P_def blank_def)
  with a have "P s0"
    by (rule for_each_preserves) (rule inner1)
  with b have "P out"
    by (rule for_each_preserves) (rule inner2)
  then show ?thesis by (simp add: P_def)
qed

lemma find_cases_body_dims:
  "find_cases_body x y (img, c) = Inr (img', c') \<Longrightarrow> width img' = width img \<and> height img' = height img"
  by (auto simp: find_cases_body_def split: sum.splits prod.splits dest: add_area_dims)


lemma find_cases_flat:
  "find_cases img = for_each (scan_offsets img) (\<lambda>p. find_cases_body (fst p) (snd p)) (img, 0)"
  unfolding find_cases_def scan_offsets_def
  by (rule for_each_flatten [where I = "\<lambda>s. height (fst s) = height img"])
     (auto dest: find_cases_body_dims)


lemma window_dims [simp]: "width (window img n m) = 100" "height (window img n m) = 100"
  by (simp_all add: window_def)

lemma bordered_dims [simp]: "width (bordered a) = width a" "height (bordered a) = height a"
  by (simp_all add: bordered_def)

lemma merged_dims [simp]: "width (merged img r n m) = width img" "height (merged img r n m) = height img"
  by (simp_all add: merged_def)

lemma stepped_dims [simp]: "width (stepped img n m b) = width img" "height (stepped img n m b) = height img"
  by (simp_all add: stepped_def)

lemma confirm_area_closed:
  assumes "width area = 100" "height area = 100"
  shows "confirm_area area a g =
           (if in_band a g then Inr (bordered area, 1) else Inr (area, 0))"
  using assms
  by (simp add: confirm_area_def in_band_def mark_border_closed split: prod.splits)

lemma find_cases_body_closed:
  assumes "valid_offset img n m"
  shows "find_cases_body n m (img, c) =
     (case get_green_agv (window img n m) of
        Inl e \<Rightarrow> Inl e
      | Inr a \<Rightarrow>
          (case get_green_agv img of
             Inl e \<Rightarrow> Inl e
           | Inr g \<Rightarrow> Inr (stepped img n m (in_band a g), c + (if in_band a g then 1 else 0))))"
proof -
  have v: "0 \<le> n" "n + 100 \<le> int (width img)" "0 \<le> m" "m + 100 \<le> int (height img)"
    "100 \<le> width img" "100 \<le> height img"
    using assms by (auto simp: valid_offset_def)
  have ga: "get_area img n m = Inr (window img n m)"
    using v by (intro get_area_ok)
  have aa: "add_area img r n m = Inr (merged img r n m)" if "width r = 100" "height r = 100" for r
    using v that by (intro add_area_closed)
  show ?thesis
    by (simp add: find_cases_body_def ga scan_area_def confirm_area_closed aa stepped_def
        split: sum.splits)
qed


lemma px_stepped:
  assumes "valid_offset img n m" "in_bounds img (fst q) (snd q)"
  shows "px (stepped img n m b) q =
           (if b \<and> ring_of n m q \<and> \<not> ((n, m) \<noteq> (0, 0) \<and> in_area q) then red_px else px img q)"
  using assms
  by (cases q)
     (auto simp: stepped_def merged_def bordered_def window_def ring_of_def in_area_def
        red_px_def valid_offset_def in_bounds_def)

lemma get_green_agv_error: "get_green_agv img = Inl e \<Longrightarrow> e = ZeroDivisionError"
  unfolding get_green_agv_closed by (simp split: if_splits)

lemma find_cases_body_cases:
  assumes "valid_offset img n m"
  obtains (area_error) "get_green_agv (window img n m) = Inl ZeroDivisionError"
      "find_cases_body n m (img, c) = Inl ZeroDivisionError"
    | (image_error) a where "get_green_agv (window img n m) = Inr a"
      "get_green_agv img = Inl ZeroDivisionError"
      "find_cases_body n m (img, c) = Inl ZeroDivisionError"
    | (stepped_ok) a g where "get_green_agv (window img n m) = Inr a" "get_green_agv img = Inr g"
      "find_cases_body n m (img, c)
         = Inr (stepped img n m (in_band a g), c + (if in_band a g then 1 else 0))"
proof (cases "get_green_agv (window img n m)")
  case (Inl e)
  then have "e = ZeroDivisionError" by (rule get_green_agv_error)
  then show ?thesis
    using Inl area_error by (simp add: find_cases_body_closed [OF assms])
next
  case a: (Inr a)
  show ?thesis
  proof (cases "get_green_agv img")
    case (Inl e)
    then have "e = ZeroDivisionError" by (rule get_green_agv_error)
    then show ?thesis
      using Inl a image_error by (simp add: find_cases_body_closed [OF assms])
  next
    case (Inr g)
    then show ?thesis
      using a stepped_ok by (simp add: find_cases_body_closed [OF assms])
  qed
qed


lemma find_cases_body_error:
  assumes "valid_offset img n m" "find_cases_body n m (img, c) = Inl e"
  shows "e = ZeroDivisionError"
proof (rule find_cases_body_cases [OF assms(1), of c], goal_cases)
  case 1
  then show ?thesis using assms(2) by simp
next
  case (2 a)
  then show ?thesis using assms(2) by simp
next
  case (3 a g)
  then show ?thesis using assms(2) by simp
qed



lemma py_range3_350: "py_range3 0 350 50 = [0, 50, 100, 150, 200, 250, 300]"
  by (simp add: py_range3.simps)

lemma py_range3_250: "py_range3 0 250 50 = [0, 50, 100, 150, 200]"
  by (simp add: py_range3.simps)

lemma scan_offsets_working:
  assumes "width img = 400" "height img = 300"
  shows "scan_offsets img =
     List.product [0, 50, 100, 150, 200, 250, 300] [0, 50, 100, 150, 200]"
  using assms
  by (simp add: scan_offsets_def AREA_SIZE_def STEP_SIZE_def py_range3_350 py_range3_250)

lemma scan_offsets_valid:
  assumes "width img = 400" "height img = 300" "p \<in> set (scan_offsets img)"
    and "width img' = 400" "height img' = 300"
  shows "valid_offset img' (fst p) (snd p)"
  using assms(3,4,5) unfolding scan_offsets_working [OF assms(1,2)] valid_offset_def
  by auto

lemma for_each_never:
  assumes "I s"
    and "\<And>x t. x \<in> set xs \<Longrightarrow> I t \<Longrightarrow> body x t \<noteq> Inl e0 \<and> (\<forall>t'. body x t = Inr t' \<longrightarrow> I t')"
  shows "for_each xs body s \<noteq> Inl e0"
  using assms
proof (induction xs arbitrary: s)
  case Nil
  show ?case by simp
next
  case (Cons x xs)
  show ?case
  proof (cases "body x s")
    case (Inl e)
    then show ?thesis using Cons.prems(2) [of x s] Cons.prems(1) by auto
  next
    case (Inr t)
    then have "I t" using Cons.prems(2) [of x s] Cons.prems(1) by auto
    then have "for_each xs body t \<noteq> Inl e0"
      by (rule Cons.IH) (rule Cons.prems(2), simp_all)
    then show ?thesis using Inr by simp
  qed
qed

section \<open>Averages as sums over sets, and the scan of a uniform image\<close>

lemma finite_unmarked: "finite (unmarked img)"
proof -
  have "unmarked img \<subseteq> set (pixels img)"
    by (auto simp: unmarked_def set_pixels)
  then show ?thesis by (rule finite_subset) simp
qed

lemma get_green_agv_set:
  "get_green_agv img =
     (if unmarked img = {} then Inl ZeroDivisionError
      else Inr ((\<Sum>p\<in>unmarked img. green (px img p)) div int (card (unmarked img))))"
proof -
  define ps where "ps = filter (\<lambda>p. green (px img p) \<noteq> 255) (pixels img)"
  have d: "distinct ps" by (simp add: ps_def distinct_pixels)
  have s: "set ps = unmarked img" by (auto simp: ps_def set_pixels unmarked_def)
  have u: "unmarked_greens img = map (\<lambda>p. green (px img p)) ps"
    by (simp add: unmarked_greens_def ps_def)
  have "sum_list (unmarked_greens img) = (\<Sum>p\<in>unmarked img. green (px img p))"
    unfolding u s [symmetric] using d by (rule sum_list_distinct_conv_sum_set)
  moreover have "length (unmarked_greens img) = card (unmarked img)"
    unfolding u s [symmetric] using d by (simp add: distinct_card)
  moreover have "unmarked_greens img = [] \<longleftrightarrow> unmarked img = {}"
    unfolding u s [symmetric] by simp
  ultimately show ?thesis
    by (simp add: get_green_agv_closed)
qed

lemma div_between:
  fixes s n lo hi :: int
  assumes "0 < n" "lo * n \<le> s" "s \<le> hi * n"
  shows "lo \<le> s div n \<and> s div n \<le> hi"
proof
  have "(lo * n) div n \<le> s div n" using assms by (intro zdiv_mono1) simp_all
  then show "lo \<le> s div n" using assms(1) by simp
  have "s div n \<le> (hi * n) div n" using assms by (intro zdiv_mono1) simp_all
  then show "s div n \<le> hi" using assms(1) by simp
qed

lemma avg_between:
  assumes "unmarked img \<noteq> {}"
    and "\<And>p. p \<in> unmarked img \<Longrightarrow> lo \<le> green (px img p) \<and> green (px img p) \<le> hi"
  shows "\<exists>a. get_green_agv img = Inr a \<and> lo \<le> a \<and> a \<le> hi"
proof -
  have c: "0 < int (card (unmarked img))"
    using assms(1) finite_unmarked [of img] by (simp add: card_gt_0_iff)
  have "(\<Sum>p\<in>unmarked img. green (px img p)) \<le> of_nat (card (unmarked img)) * hi"
    by (rule sum_bounded_above) (simp add: assms(2))
  moreover have "of_nat (card (unmarked img)) * lo \<le> (\<Sum>p\<in>unmarked img. green (px img p))"
    by (rule sum_bounded_below) (simp add: assms(2))
  ultimately have "lo \<le> (\<Sum>p\<in>unmarked img. green (px img p)) div int (card (unmarked img)) \<and>
      (\<Sum>p\<in>unmarked img. green (px img p)) div int (card (unmarked img)) \<le> hi"
    using c by (intro div_between) (simp_all add: mult.commute)
  then show ?thesis
    using assms(1) by (simp add: get_green_agv_set)
qed

lemma in_bounds_window: "in_bounds (window img n m) x y = in_area (x, y)"
  by (auto simp: in_bounds_def in_area_def)

lemma px_window: "in_area p \<Longrightarrow> px (window img n m) p = px img (fst p + n, snd p + m)"
  by (simp add: window_def in_area_def)

lemma unmarked_window:
  "unmarked (window img n m) = {p. in_area p \<and> green (px img (fst p + n, snd p + m)) \<noteq> 255}"
  by (auto simp: unmarked_def in_bounds_window px_window)

lemma area_set: "{p. in_area p} = {0..<100} \<times> {0..<100}"
  by (auto simp: in_area_def)

lemma mod50_low: "0 \<le> x \<Longrightarrow> x < 50 \<Longrightarrow> x mod 50 = (x::int)"
  by simp

lemma mod50_high:
  assumes "50 \<le> x" "x < 100"
  shows "x mod 50 = x - (50::int)"
proof -
  have "(x - 50) mod 50 = x mod 50" by (rule minus_mod_self2)
  moreover have "(x - 50) mod 50 = x - 50"
    using assms by (intro mod_pos_pos_trivial) simp_all
  ultimately show ?thesis by (simp only:)
qed

lemma inner_coords:
  "{x::int. 0 \<le> x \<and> x < 100 \<and> x mod 50 \<noteq> 0 \<and> x mod 50 \<noteq> 49} = {1..48} \<union> {51..98}"
proof (rule set_eqI)
  fix x :: int
  show "x \<in> {x. 0 \<le> x \<and> x < 100 \<and> x mod 50 \<noteq> 0 \<and> x mod 50 \<noteq> 49}
             \<longleftrightarrow> x \<in> {1..48} \<union> {51..98}"
  proof (cases "x < 50")
    case True
    then show ?thesis by (cases "0 \<le> x") (auto simp: mod50_low)
  next
    case False
    then show ?thesis by (cases "x < 100") (auto simp: mod50_high)
  qed
qed

lemma card_inner_coords:
  "card {x::int. 0 \<le> x \<and> x < 100 \<and> x mod 50 \<noteq> 0 \<and> x mod 50 \<noteq> 49} = 96"
proof -
  have "card ({1..48} \<union> {51..98::int}) = card {1..48::int} + card {51..98::int}"
    by (rule card_Un_disjoint) auto
  then show ?thesis by (simp add: inner_coords)
qed

lemma card_inner_area: "card {p. in_area p \<and> inner p} = 9216"
proof -
  have "{p. in_area p \<and> inner p}
        = {x::int. 0 \<le> x \<and> x < 100 \<and> x mod 50 \<noteq> 0 \<and> x mod 50 \<noteq> 49}
          \<times> {x::int. 0 \<le> x \<and> x < 100 \<and> x mod 50 \<noteq> 0 \<and> x mod 50 \<noteq> 49}"
    by (auto simp: in_area_def inner_def)
  then show ?thesis
    by (simp add: card_cartesian_product card_inner_coords)
qed

lemma shift_mod50: "n mod 50 = 0 \<Longrightarrow> (x + n) mod 50 = x mod (50::int)"
  by (metis add.right_neutral mod_add_right_eq)

lemma inner_shift:
  "n mod 50 = 0 \<Longrightarrow> m mod 50 = 0 \<Longrightarrow> inner (fst p + n, snd p + m) = inner p"
  by (simp add: inner_def shift_mod50)

lemma ring_not_inner:
  assumes "n mod 50 = 0" "m mod 50 = 0" "ring_of n m q"
  shows "\<not> inner q"
proof -
  have x: "fst q = (fst q - n) + n" and y: "snd q = (snd q - m) + m" by simp_all
  have mx: "fst q mod 50 = (fst q - n) mod 50"
    using shift_mod50 [OF assms(1), of "fst q - n"] by simp
  have my: "snd q mod 50 = (snd q - m) mod 50"
    using shift_mod50 [OF assms(2), of "snd q - m"] by simp
  from assms(3) have "snd q - m = 0 \<or> snd q - m = 99 \<or> fst q - n = 0 \<or> fst q - n = 99"
    by (simp add: ring_of_def on_ring_def)
  then show ?thesis
    unfolding inner_def mx my by auto
qed

lemma green_gray [simp]: "green (gray g) = g"
  by (simp add: gray_def)

lemma green_red_px [simp]: "green red_px = 0"
  by (simp add: red_px_def)

lemma card_area: "card {p. in_area p} = 10000"
  by (simp add: area_set card_cartesian_product)

lemma finite_area: "finite {p. in_area p}"
  by (simp add: area_set)

lemma sum_inner_bound:
  fixes f :: "int \<times> int \<Rightarrow> int" and g :: int
  assumes "\<And>p. in_area p \<Longrightarrow> 0 \<le> f p" "\<And>p. in_area p \<Longrightarrow> inner p \<Longrightarrow> f p = g"
  shows "g * 9216 \<le> (\<Sum>p\<in>{p. in_area p}. f p)"
proof -
  have "(\<Sum>p\<in>{p. in_area p}. if inner p then g else 0) \<le> (\<Sum>p\<in>{p. in_area p}. f p)"
    by (rule sum_mono) (auto simp: assms)
  moreover have "(\<Sum>p\<in>{p. in_area p}. if inner p then g else 0)
        = (\<Sum>p\<in>{p \<in> {p. in_area p}. inner p}. g)"
    by (rule sum.inter_filter [symmetric]) (rule finite_area)
  moreover have "{p \<in> {p. in_area p}. inner p} = {p. in_area p \<and> inner p}" by auto
  ultimately show ?thesis
    by (simp add: card_inner_area)
qed

lemma select_band_low: "a \<le> 80 \<Longrightarrow> select_band a = (10, 20)"
  by (simp add: select_band_def)

lemma in_band_low: "gi \<le> 80 \<Longrightarrow> in_band a gi \<longleftrightarrow> 10 \<le> a \<and> a \<le> 20"
  by (simp add: in_band_def select_band_low)

lemma uniform_step:
  assumes inv: "scan_inv g img" and g: "11 \<le> g" "g \<le> 20"
    and v: "valid_offset img n m" and md: "n mod 50 = 0" "m mod 50 = 0"
  shows "find_cases_body n m (img, c) = Inr (stepped img n m True, c + 1) \<and>
         scan_inv g (stepped img n m True)"
proof -
  have dims: "width img = 400" "height img = 300"
    using inv by (simp_all add: scan_inv_def)
  have col: "px img q = gray g \<or> px img q = red_px" if "in_bounds img (fst q) (snd q)" for q
    using inv that unfolding scan_inv_def by blast
  have keep: "px img q = gray g"
    if "in_bounds img (fst q) (snd q)" "inner q \<or> (in_area q \<and> \<not> on_ring q)" for q
    using inv that unfolding scan_inv_def by blast
  have inb: "in_bounds img (fst p + n) (snd p + m)" if "in_area p" for p
    using that v by (simp add: in_bounds_def in_area_def valid_offset_def)
  have gr: "green (px img q) = g \<or> green (px img q) = 0" if "in_bounds img (fst q) (snd q)" for q
    using col [OF that] by auto
  have uw: "unmarked (window img n m) = {p. in_area p}"
  proof -
    have "green (px img (fst p + n, snd p + m)) \<noteq> 255" if "in_area p" for p
      using gr [of "(fst p + n, snd p + m)"] inb [OF that] g by auto
    then show ?thesis by (auto simp: unmarked_window)
  qed
  define S where "S = (\<Sum>p\<in>{p. in_area p}. green (px (window img n m) p))"
  have lo: "g * 9216 \<le> S"
    unfolding S_def
  proof (rule sum_inner_bound)
    fix p assume a: "in_area p"
    show "0 \<le> green (px (window img n m) p)"
      using gr [of "(fst p + n, snd p + m)"] inb [OF a] g by (auto simp: px_window [OF a])
    assume "inner p"
    then have "inner (fst p + n, snd p + m)" by (simp add: inner_shift md)
    then have "px img (fst p + n, snd p + m) = gray g"
      using keep [of "(fst p + n, snd p + m)"] inb [OF a] by simp
    then show "green (px (window img n m) p) = g" by (simp add: px_window [OF a])
  qed
  have hi: "S \<le> of_nat (card {p. in_area p}) * g"
    unfolding S_def
  proof (rule sum_bounded_above)
    fix p assume "p \<in> {p. in_area p}"
    then have a: "in_area p" by simp
    show "green (px (window img n m) p) \<le> g"
      using gr [of "(fst p + n, snd p + m)"] inb [OF a] g by (auto simp: px_window [OF a])
  qed
  have aw: "get_green_agv (window img n m) = Inr (S div 10000)"
  proof -
    have "{p. in_area p} \<noteq> {}"
      using card_area by force
    then show ?thesis
      by (simp add: get_green_agv_set uw S_def card_area)
  qed
  have band: "10 \<le> S div 10000 \<and> S div 10000 \<le> 20"
  proof (rule div_between)
    show "(0::int) < 10000" by simp
    show "10 * 10000 \<le> S" using lo g by simp
    show "S \<le> 20 * 10000" using hi g by (simp add: card_area)
  qed
  have "\<exists>gi. get_green_agv img = Inr gi \<and> 0 \<le> gi \<and> gi \<le> g"
  proof (rule avg_between)
    have "in_bounds img 0 0" by (simp add: in_bounds_def dims)
    then have "(0, 0) \<in> unmarked img"
      using gr [of "(0, 0)"] g by (auto simp: unmarked_def)
    then show "unmarked img \<noteq> {}" by blast
  next
    fix p assume "p \<in> unmarked img"
    then have "in_bounds img (fst p) (snd p)" by (simp add: unmarked_def)
    then show "0 \<le> green (px img p) \<and> green (px img p) \<le> g"
      using gr [of p] g by auto
  qed
  then obtain gi where gi: "get_green_agv img = Inr gi" "gi \<le> 80"
    using g by auto
  have conf: "in_band (S div 10000) gi"
    using band gi(2) by (simp add: in_band_low)
  have run: "find_cases_body n m (img, c) = Inr (stepped img n m True, c + 1)"
    by (simp add: find_cases_body_closed [OF v] aw gi(1) conf)
  have "scan_inv g (stepped img n m True)"
    unfolding scan_inv_def
  proof (intro conjI allI impI)
    show "width (stepped img n m True) = 400" "height (stepped img n m True) = 300"
      by (simp_all add: dims)
  next
    fix q assume "in_bounds (stepped img n m True) (fst q) (snd q)"
    then have b: "in_bounds img (fst q) (snd q)" by (simp add: in_bounds_def)
    show "px (stepped img n m True) q = gray g \<or> px (stepped img n m True) q = red_px"
      using col [OF b] by (simp add: px_stepped [OF v b])
  next
    fix q assume "in_bounds (stepped img n m True) (fst q) (snd q)"
      and k: "inner q \<or> in_area q \<and> \<not> on_ring q"
    then have b: "in_bounds img (fst q) (snd q)" by (simp add: in_bounds_def)
    have "\<not> (ring_of n m q \<and> \<not> ((n, m) \<noteq> (0, 0) \<and> in_area q))"
    proof
      assume r: "ring_of n m q \<and> \<not> ((n, m) \<noteq> (0, 0) \<and> in_area q)"
      then have "\<not> inner q" using ring_not_inner [OF md] by blast
      then have ia: "in_area q" "\<not> on_ring q" using k by auto
      then have "n = 0" "m = 0" using r by auto
      then have "on_ring q" using r by (simp add: ring_of_def)
      then show False using ia by simp
    qed
    then have "px (stepped img n m True) q = px img q"
      unfolding px_stepped [OF v b] by (simp only: if_False simp_thms)
    then show "px (stepped img n m True) q = gray g"
      using keep [OF b] k by auto
  qed
  with run show ?thesis by simp
qed

lemma scan_all_confirmed:
  assumes "Inv img"
    and "\<And>p im c. p \<in> set ps \<Longrightarrow> Inv im \<Longrightarrow> \<exists>im'. body p (im, c) = Inr (im', c + 1) \<and> Inv im'"
  shows "\<exists>out. for_each ps body (img, c) = Inr (out, c + int (length ps)) \<and> Inv out"
  using assms
proof (induction ps arbitrary: img c)
  case Nil
  then show ?case by simp
next
  case (Cons p ps)
  obtain im' where s: "body p (img, c) = Inr (im', c + 1)" "Inv im'"
    using Cons.prems(2) [of p img c] Cons.prems(1) by auto
  have "\<exists>out. for_each ps body (im', c + 1) = Inr (out, c + 1 + int (length ps)) \<and> Inv out"
    using s(2)
  proof (rule Cons.IH)
    fix q im d assume "q \<in> set ps" "Inv im"
    then show "\<exists>im'. body q (im, d) = Inr (im', d + 1) \<and> Inv im'"
      using Cons.prems(2) [of q im d] by simp
  qed
  then obtain out where "for_each ps body (im', c + 1) = Inr (out, c + 1 + int (length ps))" "Inv out"
    by blast
  then show ?case using s(1) by simp
qed

lemma scan_offsets_mod:
  assumes "width img = 400" "height img = 300" "p \<in> set (scan_offsets img)"
  shows "fst p mod 50 = 0 \<and> snd p mod 50 = 0"
  using assms(3) unfolding scan_offsets_working [OF assms(1,2)] by auto

lemma scan_inv_uniform: "scan_inv g (uniform_image (gray g))"
  by (simp add: scan_inv_def uniform_image_def)

lemma uniform_scan:
  assumes "11 \<le> g" "g \<le> 20"
  shows "\<exists>out. find_cases (uniform_image (gray g)) = Inr (out, 35) \<and> scan_inv g out"
proof -
  define U where "U = uniform_image (gray g)"
  have d: "width U = 400" "height U = 300"
    by (simp_all add: U_def uniform_image_def)
  have step: "\<exists>im'. find_cases_body (fst p) (snd p) (im, c) = Inr (im', c + 1) \<and> scan_inv g im'"
    if "p \<in> set (scan_offsets U)" "scan_inv g im" for p im c
  proof -
    have di: "width im = 400" "height im = 300"
      using that(2) by (simp_all add: scan_inv_def)
    have v: "valid_offset im (fst p) (snd p)"
      using d that(1) di by (rule scan_offsets_valid)
    have md: "fst p mod 50 = 0" "snd p mod 50 = 0"
      using scan_offsets_mod [OF d that(1)] by simp_all
    show ?thesis
      using uniform_step [OF that(2) assms v md, of c] by blast
  qed
  have "\<exists>out. for_each (scan_offsets U) (\<lambda>p. find_cases_body (fst p) (snd p)) (U, 0)
           = Inr (out, 0 + int (length (scan_offsets U))) \<and> scan_inv g out"
    using scan_inv_uniform [of g] step unfolding U_def [symmetric]
    by (rule scan_all_confirmed)
  moreover have "length (scan_offsets U) = 35"
    by (simp add: scan_offsets_working [OF d])
  ultimately show ?thesis
    by (simp add: find_cases_flat U_def)
qed

lemma all_marked_fails:
  assumes "width img = 400" "height img = 300"
    and "\<And>q. in_bounds img (fst q) (snd q) \<Longrightarrow> green (px img q) = 255"
  shows "find_cases img = Inl ZeroDivisionError"
proof -
  have v: "valid_offset img 0 0"
    by (simp add: valid_offset_def assms)
  have "green (px img (fst p + 0, snd p + 0)) = 255" if "in_area p" for p
    using that by (intro assms(3)) (simp add: in_bounds_def in_area_def assms)
  then have "unmarked (window img 0 0) = {}"
    by (auto simp: unmarked_window)
  then have "get_green_agv (window img 0 0) = Inl ZeroDivisionError"
    by (simp add: get_green_agv_set)
  then have "find_cases_body 0 0 (img, 0) = Inl ZeroDivisionError"
    by (simp add: find_cases_body_closed [OF v])
  then show ?thesis
    by (simp add: find_cases_flat scan_offsets_working [OF assms(1,2)])
qed

section \<open>Recomputed and hoisted whole-image average\<close>














lemma cx_dims [simp]: "width cx_image = 400" "height cx_image = 300"
  by (simp_all add: cx_image_def cx_source_def)




































section \<open>Band selection\<close>

text \<open>
  Claim C5. The band selection of \<^verbatim>\<open>scan_area\<close> is a total function of the integer
  whole-image average: an average strictly between 80 and 85 gives \<open>(108, 110)\<close>,
  strictly between 130 and 135 gives \<open>(140, 142)\<close>, strictly between 105 and 110 gives
  \<open>(186, 188)\<close>, every other average gives the fallback band \<open>(10, 20)\<close>; the six
  boundary values 80, 85, 130, 135, 105 and 110 give the fallback band; and the result is
  exactly one of the four bands.
\<close>

theorem select_band_cases:
  "(80 < a \<and> a < 85 \<longrightarrow> select_band a = (108, 110)) \<and>
   (130 < a \<and> a < 135 \<longrightarrow> select_band a = (140, 142)) \<and>
   (105 < a \<and> a < 110 \<longrightarrow> select_band a = (186, 188)) \<and>
   (\<not> (80 < a \<and> a < 85) \<and> \<not> (130 < a \<and> a < 135) \<and> \<not> (105 < a \<and> a < 110)
      \<longrightarrow> select_band a = (10, 20)) \<and>
   (a \<in> {80, 85, 130, 135, 105, 110} \<longrightarrow> select_band a = (10, 20)) \<and>
   (\<exists>!b. b \<in> {(108, 110), (140, 142), (186, 188), (10, 20)} \<and> select_band a = b)"
proof -
  have disjoint: "\<not> (80 < a \<and> a < 85 \<and> 130 < a)" "\<not> (80 < a \<and> a < 85 \<and> 105 < a)"
    "\<not> (130 < a \<and> a < 135 \<and> a < 110)"
    by arith+
  show ?thesis
    using disjoint by (auto simp: select_band_def)
qed

theorem select_band_cases_witness:
  "select_band 82 = (108, 110) \<and> select_band 132 = (140, 142) \<and>
   select_band 107 = (186, 188) \<and> select_band 0 = (10, 20) \<and> select_band 85 = (10, 20)"
  using select_band_cases [of 82] select_band_cases [of 132] select_band_cases [of 107]
    select_band_cases [of 0] select_band_cases [of 85]
  by simp

section \<open>Running the classifier twice\<close>

text \<open>
  Claim C3, as amended. \<^verbatim>\<open>highlight_areas\<close> has no test for pixels that are already
  marked: on its own output it takes the floor average of every pixel again. So for
  every image and every pixel inside it, a pixel that the first run marked \<open>(0, 255, 0)\<close>
  becomes the gray \<open>(85, 85, 85)\<close> in the second run (85 is the average of 0, 255, 0 and
  lies outside the intensity band), and every pixel the first run did not mark is left
  unchanged by the second run.
\<close>

theorem classify_twice:
  assumes "in_bounds img (fst p) (snd p)"
  shows "(px (highlight_areas img) p = marker \<longrightarrow>
            px (highlight_areas (highlight_areas img)) p = gray 85) \<and>
         (px (highlight_areas img) p \<noteq> marker \<longrightarrow>
            px (highlight_areas (highlight_areas img)) p = px (highlight_areas img) p)"
  using assms highlight_pixel_cases [of "px img p"]
  by (auto simp: px_highlight_areas highlight_pixel_marker highlight_pixel_gray)

theorem classify_twice_witness:
  "px (highlight_areas (uniform_image (gray 220))) (0, 0) = marker \<and>
   px (highlight_areas (highlight_areas (uniform_image (gray 220)))) (0, 0) = gray 85 \<and>
   px (highlight_areas (uniform_image (gray 100))) (0, 0) = gray 100 \<and>
   px (highlight_areas (highlight_areas (uniform_image (gray 100)))) (0, 0) = gray 100"
proof -
  have b: "in_bounds (uniform_image c) (fst (0, 0)) (snd (0, 0))" for c
    by (simp add: in_bounds_def uniform_image_def)
  have ne: "gray 100 \<noteq> marker"
    by (simp add: gray_def marker_def)
  show ?thesis
    using classify_twice [OF b, of "gray 220"] classify_twice [OF b, of "gray 100"] ne
    by (simp add: highlight_uniform highlight_gray_220 highlight_pixel_gray)
qed

text \<open>
  The claim as stated fails: on the 400 by 300 image whose pixels are all gray 220, the
  first run marks the pixel at \<open>(0, 0)\<close>, and the second run turns it into gray 85, which
  is not the candidate marker.
\<close>

theorem classify_twice_counterexample:
  "px (highlight_areas (uniform_image (gray 220))) (0, 0) = marker \<and>
   px (highlight_areas (highlight_areas (uniform_image (gray 220)))) (0, 0) \<noteq> marker"
proof -
  have "px (highlight_areas (highlight_areas (uniform_image (gray 220)))) (0, 0)
        = highlight_pixel (highlight_pixel (gray 220))"
    by (simp add: px_highlight_areas in_bounds_def uniform_image_def)
  moreover have "gray 85 \<noteq> marker"
    by (simp add: gray_def marker_def)
  ultimately show ?thesis
    by (simp add: highlight_uniform highlight_gray_220 highlight_pixel_marker)
qed

section \<open>The average of the unmarked pixels\<close>

text \<open>
  Claim C6. For every image, \<^verbatim>\<open>get_green_agv\<close> returns the sum of the green values of
  the pixels whose green is not 255 divided (floor division) by the number of those
  pixels, so marked pixels count neither in the sum nor in the denominator; it raises
  \<^verbatim>\<open>ZeroDivisionError\<close> exactly when every pixel of the image is marked; and when no
  green value is negative, as in every image of the library, the floor division is the
  division that truncates.
\<close>

theorem get_green_agv_mean:
  "get_green_agv img =
     (if unmarked_greens img = [] then Inl ZeroDivisionError
      else Inr (sum_list (unmarked_greens img) div int (length (unmarked_greens img)))) \<and>
   (get_green_agv img = Inl ZeroDivisionError \<longleftrightarrow> (\<forall>p \<in> set (pixels img). green (px img p) = 255)) \<and>
   ((\<forall>p \<in> set (pixels img). 0 \<le> green (px img p)) \<and> unmarked_greens img \<noteq> [] \<longrightarrow>
      get_green_agv img
        = Inr (trunc_div (sum_list (unmarked_greens img)) (int (length (unmarked_greens img)))))"
proof (intro conjI impI)
  show "get_green_agv img =
     (if unmarked_greens img = [] then Inl ZeroDivisionError
      else Inr (sum_list (unmarked_greens img) div int (length (unmarked_greens img))))"
    by (rule get_green_agv_closed)
  show "get_green_agv img = Inl ZeroDivisionError \<longleftrightarrow> (\<forall>p \<in> set (pixels img). green (px img p) = 255)"
    by (simp add: get_green_agv_closed unmarked_greens_empty [symmetric])
next
  assume h: "(\<forall>p \<in> set (pixels img). 0 \<le> green (px img p)) \<and> unmarked_greens img \<noteq> []"
  then have "0 \<le> sum_list (unmarked_greens img)" "0 < int (length (unmarked_greens img))"
    by (simp_all add: unmarked_greens_nonneg)
  then show "get_green_agv img
        = Inr (trunc_div (sum_list (unmarked_greens img)) (int (length (unmarked_greens img))))"
    using h by (simp add: get_green_agv_closed trunc_div_nonneg)
qed

lemma pixels_two_pixel_image: "pixels two_pixel_image = [(0, 0), (1, 0)]"
  by (simp add: pixels_def two_pixel_image_def py_range_def upt_rec)

theorem get_green_agv_mean_witness:
  "get_green_agv two_pixel_image = Inr 7 \<and> get_green_agv (blank 1 1) = Inl ZeroDivisionError"
proof -
  have a: "unmarked_greens two_pixel_image = [7]"
    by (simp add: unmarked_greens_def pixels_two_pixel_image)
       (simp add: two_pixel_image_def gray_def marker_def)
  have b: "pixels (blank 1 1) = [(0, 0)]"
    by (simp add: pixels_def blank_def py_range_def)
  have c: "unmarked_greens (blank 1 1) = []"
    by (simp add: unmarked_greens_def b) (simp add: blank_def)
  show ?thesis
    using get_green_agv_mean [of two_pixel_image] get_green_agv_mean [of "blank 1 1"]
    by (simp add: a c)
qed

section \<open>Left and right\<close>

text \<open>
  Claim C7, as amended. For every image, \<^verbatim>\<open>locate_cases\<close> appends to \<^verbatim>\<open>left\<close> the column
  of every pure red pixel whose column is below \<open>width // 2\<close>, the floor of half the
  width, and to \<^verbatim>\<open>right\<close> the column of every pure red pixel whose column is above it; no
  pixel is counted on both sides, a pixel in the column \<open>width // 2\<close> is counted on neither
  (for an odd width this is the column \<open>(width - 1) / 2\<close>, which lies strictly below
  half the width); the result lists \<^verbatim>\<open>left\<close> when a pixel was counted on the left and
  then \<^verbatim>\<open>right\<close> when one was counted on the right; and an image with no pure red pixel
  gives the empty list.
\<close>

theorem locate_cases_sides:
  "locate_lists img = Inr (map fst (left_hits img), map fst (right_hits img)) \<and>
   set (left_hits img) \<inter> set (right_hits img) = {} \<and>
   (\<forall>p \<in> set (left_hits img) \<union> set (right_hits img). fst p \<noteq> int (width img) div 2) \<and>
   locate_cases img
     = Inr ((if left_hits img \<noteq> [] then [''left''] else []) @
            (if right_hits img \<noteq> [] then [''right''] else [])) \<and>
   ((\<forall>p \<in> set (columns img). \<not> pure_red (px img p)) \<longrightarrow> locate_cases img = Inr [])"
proof (intro conjI impI)
  show "locate_lists img = Inr (map fst (left_hits img), map fst (right_hits img))"
    by (rule locate_lists_closed)
  show "set (left_hits img) \<inter> set (right_hits img) = {}"
    by (auto simp: left_hits_def right_hits_def)
  show "\<forall>p \<in> set (left_hits img) \<union> set (right_hits img). fst p \<noteq> int (width img) div 2"
    by (auto simp: left_hits_def right_hits_def)
  show "locate_cases img
     = Inr ((if left_hits img \<noteq> [] then [''left''] else []) @
            (if right_hits img \<noteq> [] then [''right''] else []))"
    by (rule locate_cases_closed)
next
  assume "\<forall>p \<in> set (columns img). \<not> pure_red (px img p)"
  then have "left_hits img = []" "right_hits img = []"
    by (auto simp: left_hits_def right_hits_def filter_empty_conv)
  then show "locate_cases img = Inr []"
    by (simp add: locate_cases_closed)
qed

theorem locate_cases_sides_witness:
  "locate_lists red_row = Inr ([0], [2]) \<and> locate_cases red_row = Inr [''left'', ''right''] \<and>
   locate_cases black_row = Inr []"
proof -
  have c: "columns red_row = [(0, 0), (1, 0), (2, 0)]" "columns black_row = [(0, 0), (1, 0), (2, 0)]"
    by (simp_all add: columns_def red_row_def black_row_def py_range_def upt_rec)
  have l: "left_hits red_row = [(0, 0)]" "right_hits red_row = [(2, 0)]"
    by (simp_all add: left_hits_def right_hits_def c) (simp_all add: red_row_def pure_red_def)
  have b: "\<forall>p \<in> set (columns black_row). \<not> pure_red (px black_row p)"
    by (simp add: black_row_def pure_red_def gray_def)
  have r: "locate_lists red_row = Inr ([0], [2]) \<and> locate_cases red_row = Inr [''left'', ''right'']"
    using locate_cases_sides [of red_row] by (simp add: l)
  have k: "locate_cases black_row = Inr []"
    using locate_cases_sides [of black_row] b by blast
  show ?thesis
    using r k by simp
qed

text \<open>
  The claim as stated, with the midline at half the width, fails for an odd width: in
  the image of width 3 and height 1 whose only pure red pixel is in column 1, that column
  is strictly less than \<open>3 / 2\<close> (twice the column is less than the width), but the
  code compares with \<open>3 // 2 = 1\<close>, counts the pixel on neither side and returns the empty
  list, where the claim has it counted on the left.
\<close>

theorem locate_cases_midline_counterexample:
  "pure_red (px mid_row (1, 0)) \<and> 2 * (1::int) < int (width mid_row) \<and>
   left_hits mid_row = [] \<and> locate_lists mid_row = Inr ([], []) \<and>
   locate_cases mid_row = Inr []"
proof -
  have c: "columns mid_row = [(0, 0), (1, 0), (2, 0)]"
    by (simp add: columns_def mid_row_def py_range_def upt_rec)
  have l: "left_hits mid_row = []" "right_hits mid_row = []"
    by (simp_all add: left_hits_def right_hits_def c) (simp_all add: mid_row_def pure_red_def gray_def)
  have "pure_red (px mid_row (1, 0))" "2 * (1::int) < int (width mid_row)"
    by (simp_all add: mid_row_def pure_red_def)
  then show ?thesis
    by (simp add: l locate_lists_closed locate_cases_closed)
qed

section \<open>Mapping the detections back onto the original\<close>

lemma remove_green_uniform:
  "\<exists>out. remove_green (uniform_image c) (uniform_image d) = Inr out \<and>
         px out (0, 0) = (if red c = 255 then c else d)"
proof -
  have w: "width (uniform_image c) = 400" "height (uniform_image c) = 300"
    "400 \<le> width (uniform_image d)" "300 \<le> height (uniform_image d)"
    by (simp_all add: uniform_image_def)
  have "remove_green (uniform_image c) (uniform_image d)
        = Inr (remapped (uniform_image c) (uniform_image d))"
    using w by (intro remove_green_closed) auto
  then show ?thesis
    by (simp add: remapped_def uniform_image_def in_bounds_def)
qed


text \<open>
  Claim C4, as amended. The test of \<^verbatim>\<open>remove_green\<close> is \<^verbatim>\<open>pixel.red == 255\<close>, on the
  red channel only. For every detection image at the working resolution 400 by 300 and
  every original of at least that size, \<^verbatim>\<open>remove_green\<close> returns an image of the
  original's size that holds, at the centering offset, every pixel of the detection image
  whose red channel is 255 (the pure red pixels, and also for example white pixels) and
  agrees with the original everywhere else; a pixel whose red channel is not 255, such as
  a green candidate marker, is not transferred.
\<close>

theorem remove_green_transfers:
  assumes "width detected = 400" "height detected = 300"
    and "400 \<le> width original" "300 \<le> height original"
  shows "\<exists>out. remove_green detected original = Inr out \<and>
           width out = width original \<and> height out = height original \<and>
           (\<forall>x y. px out (x + (int (width original) - 400) div 2,
                          y + (int (height original) - 300) div 2)
                  = (if in_bounds detected x y \<and> red (px detected (x, y)) = 255
                     then px detected (x, y)
                     else px original (x + (int (width original) - 400) div 2,
                                       y + (int (height original) - 300) div 2)))"
proof -
  have "remove_green detected original = Inr (remapped detected original)"
    using assms by (intro remove_green_closed) auto
  then show ?thesis
    by (simp add: remapped_def Let_def)
qed

theorem remove_green_transfers_witness:
  "\<exists>out. remove_green (uniform_image marker) (uniform_image (gray 0)) = Inr out \<and>
         width out = 400 \<and> height out = 300 \<and> px out (0, 0) = gray 0 \<and> px out (399, 299) = gray 0"
proof -
  have w: "width (uniform_image marker) = 400" "height (uniform_image marker) = 300"
    "400 \<le> width (uniform_image (gray 0))" "300 \<le> height (uniform_image (gray 0))"
    by (simp_all add: uniform_image_def)
  obtain out where o: "remove_green (uniform_image marker) (uniform_image (gray 0)) = Inr out"
    "width out = width (uniform_image (gray 0))" "height out = height (uniform_image (gray 0))"
    and p: "\<And>x y. px out (x + (int (width (uniform_image (gray 0))) - 400) div 2,
                          y + (int (height (uniform_image (gray 0))) - 300) div 2)
                  = (if in_bounds (uniform_image marker) x y \<and> red (px (uniform_image marker) (x, y)) = 255
                     then px (uniform_image marker) (x, y)
                     else px (uniform_image (gray 0)) (x + (int (width (uniform_image (gray 0))) - 400) div 2,
                                       y + (int (height (uniform_image (gray 0))) - 300) div 2))"
    using remove_green_transfers [OF w] by blast
  have "px out (0, 0) = gray 0" "px out (399, 299) = gray 0"
    using p [of 0 0] p [of 399 299] by (simp_all add: uniform_image_def marker_def)
  then show ?thesis
    using o by (simp add: uniform_image_def)
qed

text \<open>
  The claim as stated fails: a white pixel of the detection image is not pure red, and
  it is written onto a black original.
\<close>

theorem remove_green_white_counterexample:
  "\<not> pure_red (px (uniform_image (gray 255)) (0, 0)) \<and>
   (\<exists>out. remove_green (uniform_image (gray 255)) (uniform_image (gray 0)) = Inr out \<and>
          px out (0, 0) = px (uniform_image (gray 255)) (0, 0) \<and>
          px out (0, 0) \<noteq> px (uniform_image (gray 0)) (0, 0))"
proof -
  have "gray 255 \<noteq> gray 0" "\<not> pure_red (gray 255)"
    by (simp_all add: gray_def pure_red_def)
  moreover obtain out where "remove_green (uniform_image (gray 255)) (uniform_image (gray 0)) = Inr out"
    "px out (0, 0) = gray 255"
    using remove_green_uniform [of "gray 255" "gray 0"] by (auto simp: gray_def)
  ultimately show ?thesis
    by (auto simp: uniform_image_def)
qed




section \<open>The scanned windows lie inside the working image\<close>

text \<open>
  Claim C9. For every image at the working resolution 400 by 300, every offset the loops
  of \<^verbatim>\<open>find_cases\<close> produce satisfies \<open>x + AREA_SIZE \<le> width\<close> and
  \<open>y + AREA_SIZE \<le> height\<close> (and is not negative), so \<^verbatim>\<open>get_area\<close> reads inside the
  image and returns the window; since every image the scan holds has the same size, the
  whole scan never raises the bad-coordinate exception.
\<close>

theorem scan_in_bounds:
  assumes "width img = 400" "height img = 300"
  shows "(\<forall>p \<in> set (scan_offsets img).
            0 \<le> fst p \<and> fst p + AREA_SIZE \<le> int (width img) \<and>
            0 \<le> snd p \<and> snd p + AREA_SIZE \<le> int (height img) \<and>
            get_area img (fst p) (snd p) = Inr (window img (fst p) (snd p))) \<and>
         find_cases img \<noteq> Inl BadCoordinate"
proof
  show "\<forall>p \<in> set (scan_offsets img).
            0 \<le> fst p \<and> fst p + AREA_SIZE \<le> int (width img) \<and>
            0 \<le> snd p \<and> snd p + AREA_SIZE \<le> int (height img) \<and>
            get_area img (fst p) (snd p) = Inr (window img (fst p) (snd p))"
  proof
    fix p assume "p \<in> set (scan_offsets img)"
    then have "valid_offset img (fst p) (snd p)"
      using assms by (intro scan_offsets_valid [of img])
    then show "0 \<le> fst p \<and> fst p + AREA_SIZE \<le> int (width img) \<and>
            0 \<le> snd p \<and> snd p + AREA_SIZE \<le> int (height img) \<and>
            get_area img (fst p) (snd p) = Inr (window img (fst p) (snd p))"
      by (simp add: valid_offset_def AREA_SIZE_def get_area_ok)
  qed
  define I where "I s \<longleftrightarrow> width (fst s) = 400 \<and> height (fst s) = 300" for s :: "image \<times> int"
  have step: "find_cases_body (fst p) (snd p) t \<noteq> Inl BadCoordinate \<and>
              (\<forall>t'. find_cases_body (fst p) (snd p) t = Inr t' \<longrightarrow> I t')"
    if "p \<in> set (scan_offsets img)" "I t" for p t
  proof -
    obtain im c where t: "t = (im, c)" by (cases t)
    have v: "valid_offset im (fst p) (snd p)"
      using that assms by (intro scan_offsets_valid [of img]) (simp_all add: I_def t)
    have "find_cases_body (fst p) (snd p) (im, c) \<noteq> Inl BadCoordinate"
    proof
      assume "find_cases_body (fst p) (snd p) (im, c) = Inl BadCoordinate"
      then have "BadCoordinate = ZeroDivisionError" by (rule find_cases_body_error [OF v])
      then show False by simp
    qed
    moreover have "I t'" if "find_cases_body (fst p) (snd p) (im, c) = Inr t'" for t'
      using that \<open>I t\<close> find_cases_body_dims [of "fst p" "snd p" im c "fst t'" "snd t'"]
      by (simp add: I_def t)
    ultimately show ?thesis by (simp add: t)
  qed
  show "find_cases img \<noteq> Inl BadCoordinate"
    unfolding find_cases_flat
  proof (rule for_each_never [where I = I])
    show "I (img, 0)" by (simp add: I_def assms)
  next
    fix p t assume "p \<in> set (scan_offsets img)" "I t"
    then show "find_cases_body (fst p) (snd p) t \<noteq> Inl BadCoordinate \<and>
              (\<forall>t'. find_cases_body (fst p) (snd p) t = Inr t' \<longrightarrow> I t')"
      by (rule step)
  qed
qed

theorem scan_in_bounds_witness:
  "(300, 200) \<in> set (scan_offsets (uniform_image (gray 15))) \<and>
   get_area (uniform_image (gray 15)) 300 200 = Inr (window (uniform_image (gray 15)) 300 200) \<and>
   find_cases (uniform_image (gray 15)) \<noteq> Inl BadCoordinate"
proof -
  have d: "width (uniform_image (gray 15)) = 400" "height (uniform_image (gray 15)) = 300"
    by (simp_all add: uniform_image_def)
  have m: "(300, 200) \<in> set (scan_offsets (uniform_image (gray 15)))"
    by (simp add: scan_offsets_working [OF d])
  show ?thesis
    using scan_in_bounds [OF d] m by fastforce
qed

section \<open>The end-to-end scenario\<close>

text \<open>
  Claim C2, as amended. For a 400 by 300 working image all of whose pixels are an
  unmarked gray of one value between 11 and 20 (so the whole-image average maps to the
  fallback band and every region average lies in it), \<^verbatim>\<open>find_cases\<close> scans the offsets
  \<open>x\<close> in \<open>0, 50, ..., 300\<close> and \<open>y\<close> in \<open>0, 50, ..., 200\<close>, every window is confirmed, and
  the case count is the full grid count 7 times 5, that is 35.
\<close>

theorem uniform_scan_count:
  assumes "11 \<le> g" "g \<le> 20"
  shows "scan_offsets (uniform_image (gray g))
           = List.product [0, 50, 100, 150, 200, 250, 300] [0, 50, 100, 150, 200] \<and>
         length (scan_offsets (uniform_image (gray g))) = 7 * 5 \<and>
         (\<exists>out. find_cases (uniform_image (gray g)) = Inr (out, 35))"
proof -
  have d: "width (uniform_image (gray g)) = 400" "height (uniform_image (gray g)) = 300"
    by (simp_all add: uniform_image_def)
  show ?thesis
    using uniform_scan [OF assms] by (auto simp: scan_offsets_working [OF d])
qed

theorem uniform_scan_count_witness:
  "length (scan_offsets (uniform_image (gray 15))) = 35 \<and>
   (\<exists>out. find_cases (uniform_image (gray 15)) = Inr (out, 35))"
  using uniform_scan_count [of 15] by simp

text \<open>
  The claim as stated fails: in the image whose pixels all have the gray value 220,
  \<^verbatim>\<open>highlight_areas\<close> marks every pixel, the scan has 35 offsets and not 48, and
  \<^verbatim>\<open>find_cases\<close> raises \<^verbatim>\<open>ZeroDivisionError\<close> at the first window, whose pixels are all
  marked, so no case count is returned.
\<close>

theorem all_marked_counterexample:
  "px (highlight_areas (uniform_image (gray 220))) (0, 0) = marker \<and>
   length (scan_offsets (highlight_areas (uniform_image (gray 220)))) = 35 \<and>
   find_cases (highlight_areas (uniform_image (gray 220))) = Inl ZeroDivisionError"
proof -
  define M where "M = highlight_areas (uniform_image (gray 220))"
  have d: "width M = 400" "height M = 300"
    by (simp_all add: M_def uniform_image_def)
  have m: "px M q = marker" if "in_bounds M (fst q) (snd q)" for q
    using that by (simp add: M_def px_highlight_areas uniform_image_def highlight_gray_220)
  have "green (px M q) = 255" if "in_bounds M (fst q) (snd q)" for q
    using m [OF that] by (simp add: marker_def)
  then have "find_cases M = Inl ZeroDivisionError"
    by (rule all_marked_fails [OF d])
  moreover have "px M (0, 0) = marker"
    by (rule m) (simp add: in_bounds_def d)
  moreover have "length (scan_offsets M) = 35"
    by (simp add: scan_offsets_working [OF d])
  ultimately show ?thesis by (simp add: M_def)
qed

section \<open>What the scan changes\<close>

text \<open>
  Claim C10 on the 400 by 300 image whose pixels are all gray 15. All 35 windows are
  confirmed, among them the window at offset \<open>(50, 0)\<close>; the pixel \<open>(50, 50)\<close> lies on
  the left column of that window's ring, and in the image \<^verbatim>\<open>find_cases\<close> returns it is
  still gray and not red: the merge loop of \<^verbatim>\<open>add_area\<close> copies the top-left 100 by 100
  block of the image again after it has written the area's pixels there.
\<close>

theorem border_lost_in_first_block:
  "\<exists>out. find_cases (uniform_image (gray 15)) = Inr (out, 35) \<and>
         length (scan_offsets (uniform_image (gray 15))) = 35 \<and>
         (50, 0) \<in> set (scan_offsets (uniform_image (gray 15))) \<and>
         ring_of 50 0 (50, 50) \<and>
         px out (50, 50) = gray 15 \<and> gray 15 \<noteq> red_px"
proof -
  obtain out where o: "find_cases (uniform_image (gray 15)) = Inr (out, 35)" "scan_inv 15 out"
    using uniform_scan [of 15] by auto
  have d: "width (uniform_image (gray 15)) = 400" "height (uniform_image (gray 15)) = 300"
    by (simp_all add: uniform_image_def)
  have "in_bounds out (fst (50, 50)) (snd (50, 50))"
    using o(2) by (simp add: scan_inv_def in_bounds_def)
  moreover have "in_area (50, 50) \<and> \<not> on_ring (50, 50)"
    by (simp add: in_area_def on_ring_def)
  ultimately have "px out (50, 50) = gray 15"
    using o(2) unfolding scan_inv_def by blast
  moreover have "ring_of 50 0 (50, 50)"
    by (simp add: ring_of_def in_area_def on_ring_def)
  moreover have "gray 15 \<noteq> red_px"
    by (simp add: gray_def red_px_def)
  moreover have "(50, 0) \<in> set (scan_offsets (uniform_image (gray 15)))"
    "length (scan_offsets (uniform_image (gray 15))) = 35"
    by (simp_all add: scan_offsets_working [OF d])
  ultimately show ?thesis
    using o(1) by blast
qed

section \<open>Hoisting the whole-image average\<close>




end
